theory Spec2Isabelle
  imports Main "HOL-Library.Word" "HOL-Library.Char_ord" "HOL-Library.List_Lexorder"
    "HOL-Library.Log_Nat"
begin

section \<open>Event storage for tail-based sampling (package eventstorage)\<close>

text \<open>
  The development embeds the Go package \<open>eventstorage\<close>: the \<open>Storage\<close> factory with
  its storage quota, and the \<open>ReadWriter\<close> with its batched writes, point lookups and
  prefix scans. Go strings and byte slices are byte sequences (\<open>string\<close>), \<open>int64\<close>
  and \<open>int\<close> are 64-bit words read as two's complement, errors are values.
\<close>

type_synonym bytes = string
type_synonym int64 = "64 word"

subsection \<open>Constants and errors\<close>

definition entryMetaTraceSampled :: char where
  "entryMetaTraceSampled = CHR ''s''"

definition entryMetaTraceUnsampled :: char where
  "entryMetaTraceUnsampled = CHR ''u''"

definition entryMetaTraceEvent :: char where
  "entryMetaTraceEvent = CHR ''e''"

text \<open>
  Error values. \<open>Errorf f e\<close> is \<open>fmt.Errorf(f, e)\<close> with a \<open>%w\<close> verb: an error that
  wraps \<open>e\<close>. \<open>ErrKeyNotFound\<close> and \<open>ErrTxnTooBig\<close> are the two errors of the key-value
  engine the package compares against; \<open>ErrOther n\<close> stands for every other error
  value an engine call or the codec may return.
\<close>

datatype error =
    ErrNotFound
  | ENOSPC
  | ErrKeyNotFound
  | ErrTxnTooBig
  | ErrOther nat
  | Errorf string error

definition ErrLimitReached :: error where
  "ErrLimitReached = Errorf ''configured storage limit reached: %w'' ENOSPC"

definition flushErrFmt :: string where
  "flushErrFmt = ''flush pending writes: %w''"

text \<open>\<open>errors.Is\<close>: the error itself or one it wraps, at any depth.\<close>

fun errors_Is :: "error \<Rightarrow> error \<Rightarrow> bool" where
  "errors_Is (Errorf f e) target = (Errorf f e = target \<or> errors_Is e target)"
| "errors_Is e target = (e = target)"

subsection \<open>The key-value engine\<close>

text \<open>
  Modelled from the spec: the key-value engine (badger), an external library that the
  package only calls and whose code is not among the sources. It is modelled as the
  collaborator the spec assumes: an ordered key-value store with transactions that buffer
  their writes and read their own writes over a snapshot of the committed store, prefix
  iteration in key order, per-entry expiry (an \<open>ExpiresAt\<close> of 0 never expires),
  deletion marks, and two reported sizes. Every engine call that can return an error takes
  its outcome from a script of injected failures (\<open>faults\<close>), so that each error branch
  of the package is reachable, and is recorded in a log (\<open>calls\<close>), so that what the
  package asks of the engine can be observed. Time is the engine's \<open>clock\<close>; no
  operation of the package advances it.
\<close>

record entry =
  Key :: bytes
  Value :: bytes
  UserMeta :: char
  ExpiresAt :: int
  bitDelete :: bool

datatype engine_call = CallSetEntry | CallDelete | CallCommit | CallGet | CallValue

record DB =
  committed :: "entry list"
  lsm :: int64
  vlog :: int64
  clock :: int
  faults :: "error option list"
  calls :: "engine_call list"

record Txn =
  snapshot :: "entry list"
  pendingT :: "entry list"

text \<open>
  A store holds at most one entry for a key: writing a key replaces the entry that was
  there, and the newest write is at the head. \<open>merged ps xs\<close> applies the buffered
  writes \<open>ps\<close>, oldest first, to the store \<open>xs\<close>.
\<close>

definition upsert :: "entry \<Rightarrow> entry list \<Rightarrow> entry list" where
  "upsert e xs = e # filter (\<lambda>x. Key x \<noteq> Key e) xs"

definition merged :: "entry list \<Rightarrow> entry list \<Rightarrow> entry list" where
  "merged ps xs = foldr upsert ps xs"

text \<open>What a transaction sees: its own pending writes over its snapshot.\<close>

definition txn_view :: "Txn \<Rightarrow> entry list" where
  "txn_view t = merged (pendingT t) (snapshot t)"

definition isDeletedOrExpired :: "int \<Rightarrow> entry \<Rightarrow> bool" where
  "isDeletedOrExpired now e =
     (if bitDelete e then True
      else if ExpiresAt e = 0 then False
      else ExpiresAt e \<le> now)"

text \<open>
  The outcome the script holds for the next fallible engine call (none once the script is
  used up), and one such call: log it and take that outcome.
\<close>

definition next_outcome :: "DB \<Rightarrow> error option" where
  "next_outcome d = (case faults d of [] \<Rightarrow> None | f # _ \<Rightarrow> f)"

definition engine_step :: "engine_call \<Rightarrow> DB \<Rightarrow> error option \<times> DB" where
  "engine_step c d =
     (case faults d of
        [] \<Rightarrow> (None, d\<lparr>calls := calls d @ [c]\<rparr>)
      | f # fs \<Rightarrow> (f, d\<lparr>faults := fs, calls := calls d @ [c]\<rparr>))"

definition db_Size :: "DB \<Rightarrow> int64 \<times> int64" where
  "db_Size d = (lsm d, vlog d)"

definition NewTransaction :: "DB \<Rightarrow> Txn" where
  "NewTransaction d = \<lparr>snapshot = committed d, pendingT = []\<rparr>"

definition txn_SetEntry :: "DB \<Rightarrow> Txn \<Rightarrow> entry \<Rightarrow> error option \<times> DB \<times> Txn" where
  "txn_SetEntry d t e =
     (case engine_step CallSetEntry d of
        (Some err, d') \<Rightarrow> (Some err, d', t)
      | (None, d') \<Rightarrow> (None, d', t\<lparr>pendingT := upsert e (pendingT t)\<rparr>))"

definition txn_Delete :: "DB \<Rightarrow> Txn \<Rightarrow> bytes \<Rightarrow> error option \<times> DB \<times> Txn" where
  "txn_Delete d t k =
     (case engine_step CallDelete d of
        (Some err, d') \<Rightarrow> (Some err, d', t)
      | (None, d') \<Rightarrow>
          (None, d', t\<lparr>pendingT :=
             upsert \<lparr>Key = k, Value = [], UserMeta = CHR 0x00, ExpiresAt = 0, bitDelete = True\<rparr>
               (pendingT t)\<rparr>))"

definition txn_Commit :: "DB \<Rightarrow> Txn \<Rightarrow> error option \<times> DB" where
  "txn_Commit d t =
     (case engine_step CallCommit d of
        (Some err, d') \<Rightarrow> (Some err, d')
      | (None, d') \<Rightarrow> (None, d'\<lparr>committed := merged (pendingT t) (committed d')\<rparr>))"

definition txn_Get :: "DB \<Rightarrow> Txn \<Rightarrow> bytes \<Rightarrow> (error + entry) \<times> DB" where
  "txn_Get d t k =
     (case engine_step CallGet d of
        (Some err, d') \<Rightarrow> (Inl err, d')
      | (None, d') \<Rightarrow>
          (case find (\<lambda>x. Key x = k) (txn_view t) of
             None \<Rightarrow> (Inl ErrKeyNotFound, d')
           | Some it \<Rightarrow>
               if isDeletedOrExpired (clock d') it then (Inl ErrKeyNotFound, d')
               else (Inr it, d')))"

text \<open>
  The items of an iterator with a key prefix: the entries the transaction sees whose key
  starts with the prefix, in ascending (bytewise lexicographic) key order.
\<close>

definition txn_Iterate :: "Txn \<Rightarrow> bytes \<Rightarrow> entry list" where
  "txn_Iterate t pfx =
     sort_key Key (filter (\<lambda>x. take (length pfx) (Key x) = pfx) (txn_view t))"

definition item_Value :: "DB \<Rightarrow> entry \<Rightarrow> (error + bytes) \<times> DB" where
  "item_Value d it =
     (case engine_step CallValue d of
        (Some err, d') \<Rightarrow> (Inl err, d')
      | (None, d') \<Rightarrow> (Inr (Value it), d'))"

text \<open>
  \<open>badger.NewEntry(key, value).WithMeta(meta).WithTTL(ttl)\<close>: the entry expires \<open>ttl\<close>
  after the time of the call; the TTL is counted in the unit of the engine's clock.
\<close>

definition NewEntry :: "bytes \<Rightarrow> bytes \<Rightarrow> entry" where
  "NewEntry k v = \<lparr>Key = k, Value = v, UserMeta = CHR 0x00, ExpiresAt = 0, bitDelete = False\<rparr>"

definition WithMeta :: "char \<Rightarrow> entry \<Rightarrow> entry" where
  "WithMeta m e = e\<lparr>UserMeta := m\<rparr>"

definition WithTTL :: "int \<Rightarrow> int \<Rightarrow> entry \<Rightarrow> entry" where
  "WithTTL now dur e = e\<lparr>ExpiresAt := now + dur\<rparr>"

subsection \<open>Storage\<close>

record 'ev Codec =
  DecodeEvent :: "bytes \<Rightarrow> error + 'ev"
  EncodeEvent :: "'ev \<Rightarrow> error + bytes"

record 'ev Storage =
  db :: DB
  codec :: "'ev Codec"
  ttl :: int
  limit :: int64

text \<open>
  \<open>New\<close> computes \<open>int64(float64(limit) * storageLimitThreshold)\<close>. The three
  floating-point steps are written out on integers: a finite binary64 value is a pair
  \<open>(m, e)\<close> standing for \<open>m * 2 ^ e\<close> with \<open>\<bar>m\<bar> \<le> 2 ^ 53\<close>; conversion from an integer
  and multiplication round to 53 significant bits, to nearest, ties to even; conversion to
  \<open>int64\<close> truncates towards zero.
\<close>

type_synonym float64 = "int \<times> int"

definition round_nearest_even :: "int \<Rightarrow> nat \<Rightarrow> int" where
  "round_nearest_even m k =
     (let q = m div 2 ^ k; r = m mod 2 ^ k
      in if 2 * r < 2 ^ k then q
         else if 2 ^ k < 2 * r then q + 1
         else if even q then q else q + 1)"

definition round53 :: "int \<Rightarrow> int \<Rightarrow> float64" where
  "round53 m e =
     (let n = nat (bitlen \<bar>m\<bar>)
      in if n \<le> 53 then (m, e)
         else (sgn m * round_nearest_even \<bar>m\<bar> (n - 53), e + int (n - 53)))"

definition float64_of_int64 :: "int64 \<Rightarrow> float64" where
  "float64_of_int64 x = round53 (sint x) 0"

definition float64_mul :: "float64 \<Rightarrow> float64 \<Rightarrow> float64" where
  "float64_mul a b = round53 (fst a * fst b) (snd a + snd b)"

definition int64_of_float64 :: "float64 \<Rightarrow> int64" where
  "int64_of_float64 a =
     (let m = fst a; e = snd a
      in word_of_int
           (if 0 \<le> e then m * 2 ^ nat e
            else sgn m * (\<bar>m\<bar> div 2 ^ nat (- e))))"

text \<open>The constant \<open>0.90\<close> as a binary64: \<open>0x1.ccccccccccccdp-1\<close>.\<close>

definition storageLimitThreshold :: float64 where
  "storageLimitThreshold = (8106479329266893, - 53)"

definition New :: "DB \<Rightarrow> 'ev Codec \<Rightarrow> int \<Rightarrow> int64 \<Rightarrow> 'ev Storage" where
  "New d c t l =
     \<lparr>db = d, codec = c, ttl = t,
      limit = (if 1 < sint l
               then int64_of_float64 (float64_mul (float64_of_int64 l) storageLimitThreshold)
               else l)\<rparr>"

definition limitReached :: "'ev Storage \<Rightarrow> bool" where
  "limitReached st =
     (if limit st = 0 then False
      else (case db_Size (db st) of (l, v) \<Rightarrow>
              let current = l + v in sint (limit st) \<le> sint current))"

subsection \<open>ReadWriter\<close>

record 'ev ReadWriter =
  rw_s :: "'ev Storage"
  rw_txn :: Txn
  readKeyBuf :: bytes
  pendingWrites :: int64

definition NewReadWriter :: "'ev Storage \<Rightarrow> 'ev ReadWriter" where
  "NewReadWriter st =
     \<lparr>rw_s = st, rw_txn = NewTransaction (db st), readKeyBuf = [], pendingWrites = 0\<rparr>"

definition rw_db :: "'ev ReadWriter \<Rightarrow> DB" where
  "rw_db rw = db (rw_s rw)"

definition set_db :: "DB \<Rightarrow> 'ev ReadWriter \<Rightarrow> 'ev ReadWriter" where
  "set_db d rw = rw\<lparr>rw_s := (rw_s rw)\<lparr>db := d\<rparr>\<rparr>"

definition Flush :: "'ev ReadWriter \<Rightarrow> error option \<times> 'ev ReadWriter" where
  "Flush rw =
     (if limitReached (rw_s rw) then (Some (Errorf flushErrFmt ErrLimitReached), rw)
      else (case txn_Commit (rw_db rw) (rw_txn rw) of (err, d') \<Rightarrow>
              let rw' = (set_db d' rw)\<lparr>rw_txn := NewTransaction d', pendingWrites := 0\<rparr>
              in (case err of
                    Some e \<Rightarrow> (Some (Errorf flushErrFmt e), rw')
                  | None \<Rightarrow> (None, rw'))))"

definition rw_SetEntry :: "'ev ReadWriter \<Rightarrow> entry \<Rightarrow> error option \<times> 'ev ReadWriter" where
  "rw_SetEntry rw e =
     (case txn_SetEntry (rw_db rw) (rw_txn rw) e of
        (err, d', t') \<Rightarrow> (err, (set_db d' rw)\<lparr>rw_txn := t'\<rparr>))"

definition writeEntry :: "'ev ReadWriter \<Rightarrow> entry \<Rightarrow> error option \<times> 'ev ReadWriter" where
  "writeEntry rw e =
     (let rw1 = rw\<lparr>pendingWrites := pendingWrites rw + 1\<rparr>
      in case rw_SetEntry rw1 e of (err, rw2) \<Rightarrow>
           (case (if 200 \<le> sint (pendingWrites rw2) then Flush rw2 else (None, rw2)) of
              (Some ferr, rw3) \<Rightarrow> (Some ferr, rw3)
            | (None, rw3) \<Rightarrow>
                if err \<noteq> Some ErrTxnTooBig then (err, rw3)
                else (case Flush rw3 of
                        (Some ferr, rw4) \<Rightarrow> (Some ferr, rw4)
                      | (None, rw4) \<Rightarrow> rw_SetEntry rw4 e)))"

definition WriteTraceSampled ::
  "'ev ReadWriter \<Rightarrow> string \<Rightarrow> bool \<Rightarrow> error option \<times> 'ev ReadWriter" where
  "WriteTraceSampled rw traceID sampled =
     (let key = traceID;
          meta = (if sampled then entryMetaTraceSampled else entryMetaTraceUnsampled);
          e = WithMeta meta (NewEntry key [])
      in writeEntry rw (WithTTL (clock (rw_db rw)) (ttl (rw_s rw)) e))"

definition IsTraceSampled ::
  "'ev ReadWriter \<Rightarrow> string \<Rightarrow> (bool \<times> error option) \<times> 'ev ReadWriter" where
  "IsTraceSampled rw traceID =
     (let rw1 = rw\<lparr>readKeyBuf := traceID\<rparr>
      in case txn_Get (rw_db rw1) (rw_txn rw1) (readKeyBuf rw1) of (r, d') \<Rightarrow>
           (case r of
              Inl err \<Rightarrow>
                if err = ErrKeyNotFound then ((False, Some ErrNotFound), set_db d' rw1)
                else ((False, Some err), set_db d' rw1)
            | Inr item \<Rightarrow> ((UserMeta item = entryMetaTraceSampled, None), set_db d' rw1)))"

definition eventKey :: "string \<Rightarrow> string \<Rightarrow> bytes" where
  "eventKey traceID eid = (traceID @ [CHR '':'']) @ eid"

definition WriteTraceEvent ::
  "'ev ReadWriter \<Rightarrow> string \<Rightarrow> string \<Rightarrow> 'ev \<Rightarrow> error option \<times> 'ev ReadWriter" where
  "WriteTraceEvent rw traceID eid event =
     (let key = eventKey traceID eid
      in case EncodeEvent (codec (rw_s rw)) event of
           Inl err \<Rightarrow> (Some err, rw)
         | Inr data \<Rightarrow>
             writeEntry rw
               (WithTTL (clock (rw_db rw)) (ttl (rw_s rw))
                  (WithMeta entryMetaTraceEvent (NewEntry key data))))"

definition DeleteTraceEvent ::
  "'ev ReadWriter \<Rightarrow> string \<Rightarrow> string \<Rightarrow> error option \<times> 'ev ReadWriter" where
  "DeleteTraceEvent rw traceID eid =
     (let key = eventKey traceID eid
      in case txn_Delete (rw_db rw) (rw_txn rw) key of
           (err, d', t') \<Rightarrow> (err, (set_db d' rw)\<lparr>rw_txn := t'\<rparr>))"

text \<open>The body of the iteration in \<open>ReadTraceEvents\<close>, over the items of the iterator.\<close>

fun readLoop ::
  "'ev Codec \<Rightarrow> DB \<Rightarrow> entry list \<Rightarrow> 'ev list \<Rightarrow> error option \<times> DB \<times> 'ev list" where
  "readLoop c d [] out = (None, d, out)"
| "readLoop c d (item # items) out =
     (if isDeletedOrExpired (clock d) item then readLoop c d items out
      else if UserMeta item = entryMetaTraceEvent then
        (case item_Value d item of
           (Inl err, d') \<Rightarrow> (Some err, d', out)
         | (Inr data, d') \<Rightarrow>
             (case DecodeEvent c data of
                Inl err \<Rightarrow> (Some err, d', out)
              | Inr event \<Rightarrow> readLoop c d' items (out @ [event])))
      else readLoop c d items out)"

definition ReadTraceEvents ::
  "'ev ReadWriter \<Rightarrow> string \<Rightarrow> 'ev list \<Rightarrow> error option \<times> 'ev ReadWriter \<times> 'ev list" where
  "ReadTraceEvents rw traceID out =
     (let rw1 = rw\<lparr>readKeyBuf := traceID @ [CHR '':'']\<rparr>;
          items = txn_Iterate (rw_txn rw1) (readKeyBuf rw1)
      in case readLoop (codec (rw_s rw1)) (rw_db rw1) items out of
           (err, d', out') \<Rightarrow> (err, set_db d' rw1, out'))"

subsection \<open>Callers and sample data\<close>

text \<open>
  A caller that issues a sequence of \<open>DeleteTraceEvent\<close> calls on one writer, whatever
  each call returns.
\<close>

fun deleteMany :: "'ev ReadWriter \<Rightarrow> (string \<times> string) list \<Rightarrow> 'ev ReadWriter" where
  "deleteMany rw [] = rw"
| "deleteMany rw ((traceID, eid) # ks) = deleteMany (snd (DeleteTraceEvent rw traceID eid)) ks"

text \<open>
  Sample data for the worked instances below: an empty engine that reports 100 bytes in
  use, a codec whose events are their own encoding, and writers over it.
\<close>

definition sample_db :: DB where
  "sample_db = \<lparr>committed = [], lsm = 60, vlog = 40, clock = 1000, faults = [], calls = []\<rparr>"

definition sample_codec :: "string Codec" where
  "sample_codec = \<lparr>DecodeEvent = Inr, EncodeEvent = Inr\<rparr>"

definition sample_rw :: "int64 \<Rightarrow> error option list \<Rightarrow> string ReadWriter" where
  "sample_rw l fs =
     NewReadWriter \<lparr>db = sample_db\<lparr>faults := fs\<rparr>, codec = sample_codec, ttl = 30, limit = l\<rparr>"



section \<open>Properties\<close>

subsection \<open>State projections and engine steps\<close>

lemma rw_db_simps [simp]:
  "rw_db (set_db d rw) = d"
  "rw_db (rw\<lparr>rw_txn := t\<rparr>) = rw_db rw"
  "rw_db (rw\<lparr>pendingWrites := n\<rparr>) = rw_db rw"
  "rw_db (rw\<lparr>readKeyBuf := b\<rparr>) = rw_db rw"
  by (simp_all add: rw_db_def set_db_def)

lemma set_db_simps [simp]:
  "rw_txn (set_db d rw) = rw_txn rw"
  "pendingWrites (set_db d rw) = pendingWrites rw"
  "readKeyBuf (set_db d rw) = readKeyBuf rw"
  "codec (rw_s (set_db d rw)) = codec (rw_s rw)"
  "ttl (rw_s (set_db d rw)) = ttl (rw_s rw)"
  "limit (rw_s (set_db d rw)) = limit (rw_s rw)"
  by (simp_all add: set_db_def)

lemma engine_step_cases:
  "engine_step c d =
     (case faults d of [] \<Rightarrow> None | f # fs \<Rightarrow> f,
      d\<lparr>faults := tl (faults d), calls := calls d @ [c]\<rparr>)"
  by (cases "faults d") (simp_all add: engine_step_def)

lemma engine_step_outcome:
  "engine_step c d = (next_outcome d, d\<lparr>faults := tl (faults d), calls := calls d @ [c]\<rparr>)"
  by (simp add: engine_step_cases next_outcome_def)

lemma limitReached_iff:
  "limitReached st \<longleftrightarrow>
     limit st \<noteq> 0 \<and> sint (limit st) \<le> sint (lsm (db st) + vlog (db st))"
  by (simp add: limitReached_def db_Size_def Let_def)

lemma limitReached_set_db [simp]:
  "lsm d = lsm (rw_db rw) \<Longrightarrow> vlog d = vlog (rw_db rw) \<Longrightarrow>
   limitReached (rw_s (set_db d rw)) = limitReached (rw_s rw)"
  by (simp add: limitReached_iff set_db_def rw_db_def)

text \<open>
  The sum of the two sizes is an \<open>int64\<close> addition; for sizes that are not negative and
  whose sum fits, it is the sum of the integers.
\<close>

lemma size_sum_exact:
  fixes l v :: int64
  assumes "0 \<le> sint l" "0 \<le> sint v" "sint l + sint v < 2 ^ 63"
  shows "sint (l + v) = sint l + sint v"
  using assms by (simp add: sint_word_ariths signed_take_bit_int_eq_self)

lemma limitReached_exact:
  assumes "0 \<le> sint (lsm (db st))" "0 \<le> sint (vlog (db st))"
    and "sint (lsm (db st)) + sint (vlog (db st)) < 2 ^ 63"
  shows "limitReached st \<longleftrightarrow>
           limit st \<noteq> 0 \<and> sint (limit st) \<le> sint (lsm (db st)) + sint (vlog (db st))"
  using assms by (simp add: limitReached_iff size_sum_exact)

text \<open>Definitions unfolded when a concrete instance is evaluated.\<close>

lemmas step_defs = Flush_def rw_SetEntry_def txn_SetEntry_def txn_Commit_def engine_step_def
  NewTransaction_def

lemmas sample_defs = sample_rw_def sample_db_def sample_codec_def NewReadWriter_def
  NewTransaction_def rw_db_def set_db_def

lemmas eval_defs = WriteTraceEvent_def WriteTraceSampled_def writeEntry_def step_defs sample_defs
  ReadTraceEvents_def IsTraceSampled_def txn_Get_def txn_Iterate_def txn_view_def merged_def
  upsert_def item_Value_def isDeletedOrExpired_def eventKey_def limitReached_iff
  NewEntry_def WithMeta_def WithTTL_def entryMetaTraceEvent_def entryMetaTraceSampled_def
  entryMetaTraceUnsampled_def Let_def

subsection \<open>Stores\<close>

lemma filter_key_upsert:
  "filter (\<lambda>x. Key x = k) (upsert e xs) =
     (if Key e = k then [e] else filter (\<lambda>x. Key x = k) xs)"
  by (induction xs) (auto simp: upsert_def)

lemma filter_key_merged:
  "filter (\<lambda>x. Key x = k) (merged ps xs) =
     (case filter (\<lambda>x. Key x = k) ps of
        [] \<Rightarrow> filter (\<lambda>x. Key x = k) xs
      | p # _ \<Rightarrow> [p])"
  by (induction ps) (auto simp: merged_def filter_key_upsert split: list.splits)

lemma set_upsert: "set (upsert e xs) \<subseteq> insert e (set xs)"
  by (auto simp: upsert_def)

lemma set_merged: "set (merged ps xs) \<subseteq> set ps \<union> set xs"
  by (induction ps) (use set_upsert in \<open>auto simp: merged_def\<close>)

lemma merged_Nil [simp]: "merged [] xs = xs"
  by (simp add: merged_def)

lemma find_filter_conv:
  "find P xs = (case filter P xs of [] \<Rightarrow> None | x # _ \<Rightarrow> Some x)"
  by (induction xs) auto

lemma filter_keys_upsert:
  "filter (\<lambda>x. q (Key x)) (upsert e xs) =
     (if q (Key e) then upsert e (filter (\<lambda>x. q (Key x)) xs) else filter (\<lambda>x. q (Key x)) xs)"
proof -
  have a: "filter (\<lambda>x. q (Key x)) (filter (\<lambda>x. Key x \<noteq> Key e) xs) =
        filter (\<lambda>x. Key x \<noteq> Key e) (filter (\<lambda>x. q (Key x)) xs)"
    by (auto intro: filter_cong)
  have b: "\<not> q (Key e) \<Longrightarrow>
        filter (\<lambda>x. Key x \<noteq> Key e) (filter (\<lambda>x. q (Key x)) xs) = filter (\<lambda>x. q (Key x)) xs"
    by (induction xs) auto
  show ?thesis using a b by (simp add: upsert_def)
qed

lemma filter_keys_merged:
  "filter (\<lambda>x. q (Key x)) (merged ps xs) =
     merged (filter (\<lambda>x. q (Key x)) ps) (filter (\<lambda>x. q (Key x)) xs)"
  by (induction ps) (simp_all add: merged_def filter_keys_upsert)

subsection \<open>Single steps of the writer\<close>

lemma txn_Commit_calls: "calls (snd (txn_Commit d t)) = calls d @ [CallCommit]"
  by (simp add: txn_Commit_def engine_step_cases split: list.splits option.splits)

lemma txn_Commit_committed:
  "txn_Commit d t = (None, d') \<Longrightarrow> committed d' = merged (pendingT t) (committed d)"
  by (auto simp: txn_Commit_def engine_step_cases split: list.splits option.splits)

lemma Flush_commit:
  assumes "\<not> limitReached (rw_s rw)"
  shows "Flush rw =
           (map_option (Errorf flushErrFmt) (fst (txn_Commit (rw_db rw) (rw_txn rw))),
            (set_db (snd (txn_Commit (rw_db rw) (rw_txn rw))) rw)
              \<lparr>rw_txn := NewTransaction (snd (txn_Commit (rw_db rw) (rw_txn rw))),
               pendingWrites := 0\<rparr>)"
  using assms by (simp add: Flush_def Let_def split: prod.splits option.splits)

lemma Flush_limit:
  "limitReached (rw_s rw) \<Longrightarrow> Flush rw = (Some (Errorf flushErrFmt ErrLimitReached), rw)"
  by (simp add: Flush_def)

lemma rw_SetEntry_None:
  assumes "rw_SetEntry rw e = (None, rw')"
  shows "pendingT (rw_txn rw') = upsert e (pendingT (rw_txn rw))"
    and "snapshot (rw_txn rw') = snapshot (rw_txn rw)"
    and "committed (rw_db rw') = committed (rw_db rw)"
    and "pendingWrites rw' = pendingWrites rw"
  using assms
  by (auto simp: rw_SetEntry_def txn_SetEntry_def engine_step_cases
      split: prod.splits option.splits list.splits)

lemma Flush_None:
  assumes "Flush rw = (None, rw')"
  shows "pendingT (rw_txn rw') = []"
    and "committed (rw_db rw') = merged (pendingT (rw_txn rw)) (committed (rw_db rw))"
    and "snapshot (rw_txn rw') = committed (rw_db rw')"
    and "pendingWrites rw' = 0"
  using assms
  by (auto simp: Flush_def txn_Commit_def engine_step_cases NewTransaction_def Let_def
      split: prod.splits option.splits list.splits if_splits)

subsection \<open>Flush and the storage quota\<close>

text \<open>
  The error Flush returns on an exceeded quota wraps \<open>ErrLimitReached\<close>, which wraps
  \<open>ENOSPC\<close>: \<open>errors.Is\<close> finds both.
\<close>

lemma quota_error_is_ErrLimitReached:
  "errors_Is (Errorf flushErrFmt ErrLimitReached) ErrLimitReached"
  "errors_Is (Errorf flushErrFmt ErrLimitReached) ENOSPC"
  by (simp_all add: ErrLimitReached_def)

text \<open>
  C1. Flush returns the quota error, leaving the writer as it was (nothing is committed),
  exactly when the limit is non-zero and the reported size lsm + vlog is at or above it;
  otherwise it commits the transaction, opens a new one and resets the counter.
\<close>

theorem Flush_quota_or_commit:
  "((Flush rw = (Some (Errorf flushErrFmt ErrLimitReached), rw)) =
     (limit (rw_s rw) \<noteq> 0 \<and> sint (limit (rw_s rw)) \<le> sint (lsm (rw_db rw) + vlog (rw_db rw))))
   \<and> (\<not> (limit (rw_s rw) \<noteq> 0 \<and> sint (limit (rw_s rw)) \<le> sint (lsm (rw_db rw) + vlog (rw_db rw))) \<longrightarrow>
     (\<exists>err d'. txn_Commit (rw_db rw) (rw_txn rw) = (err, d') \<and>
       Flush rw = (map_option (Errorf flushErrFmt) err,
                   (set_db d' rw)\<lparr>rw_txn := NewTransaction d', pendingWrites := 0\<rparr>) \<and>
       calls d' = calls (rw_db rw) @ [CallCommit] \<and>
       (err = None \<longrightarrow> committed d' = merged (pendingT (rw_txn rw)) (committed (rw_db rw)))))"
proof (cases "limitReached (rw_s rw)")
  case True
  then show ?thesis
    by (simp add: Flush_limit) (simp add: limitReached_iff rw_db_def)
next
  case False
  obtain err d' where c: "txn_Commit (rw_db rw) (rw_txn rw) = (err, d')"
    by (cases "txn_Commit (rw_db rw) (rw_txn rw)")
  have calls: "calls d' = calls (rw_db rw) @ [CallCommit]"
    using txn_Commit_calls [of "rw_db rw" "rw_txn rw"] c by simp
  have fl: "Flush rw = (map_option (Errorf flushErrFmt) err,
                   (set_db d' rw)\<lparr>rw_txn := NewTransaction d', pendingWrites := 0\<rparr>)"
    using Flush_commit [OF False] c by simp
  have "snd (Flush rw) \<noteq> rw"
  proof
    assume "snd (Flush rw) = rw"
    then have "rw_db (snd (Flush rw)) = rw_db rw" by simp
    then show False using fl calls by simp
  qed
  then have "Flush rw \<noteq> (Some (Errorf flushErrFmt ErrLimitReached), rw)"
    by auto
  moreover have "\<not> (limit (rw_s rw) \<noteq> 0 \<and> sint (limit (rw_s rw)) \<le> sint (lsm (rw_db rw) + vlog (rw_db rw)))"
    using False by (simp add: limitReached_iff rw_db_def)
  ultimately show ?thesis
    using c fl calls txn_Commit_committed [of "rw_db rw" "rw_txn rw" d'] by auto
qed

theorem Flush_quota_or_commit_witness:
  "Flush (sample_rw 90 []) = (Some (Errorf flushErrFmt ErrLimitReached), sample_rw 90 [])
   \<and> fst (Flush (sample_rw 200 [])) = None
   \<and> pendingWrites (snd (Flush (sample_rw 200 []))) = 0
   \<and> calls (rw_db (snd (Flush (sample_rw 200 [])))) = [CallCommit]"
  using Flush_quota_or_commit [of "sample_rw 90 []"] Flush_quota_or_commit [of "sample_rw 200 []"]
  by (simp add: sample_rw_def sample_db_def NewReadWriter_def rw_db_def set_db_def
      txn_Commit_def engine_step_def NewTransaction_def)

lemma limitReached_upd [simp]:
  "limitReached (rw_s (rw\<lparr>pendingWrites := n\<rparr>)) = limitReached (rw_s rw)"
  "limitReached (rw_s (rw\<lparr>rw_txn := t\<rparr>)) = limitReached (rw_s rw)"
  by simp_all

lemma db_upd_simps [simp]:
  "limitReached (rw_s (set_db ((rw_db rw)\<lparr>faults := fs, calls := cs\<rparr>) rw)) = limitReached (rw_s rw)"
  "limitReached (rw_s (set_db ((rw_db rw)\<lparr>calls := cs\<rparr>) rw)) = limitReached (rw_s rw)"
  by simp_all

text \<open>
  C9. When the quota check passes and the engine's commit fails, Flush still opens a fresh
  transaction and zeroes the counter before it returns the error: the buffered writes are
  neither committed nor kept. On a quota error the writer is left as it was.
\<close>

theorem Flush_commit_error_resets:
  "(\<not> limitReached (rw_s rw) \<and> faults (rw_db rw) = Some err # fs \<longrightarrow>
      (\<exists>rw'. Flush rw = (Some (Errorf flushErrFmt err), rw') \<and>
         rw_txn rw' = NewTransaction (rw_db rw') \<and>
         pendingT (rw_txn rw') = [] \<and>
         snapshot (rw_txn rw') = committed (rw_db rw) \<and>
         pendingWrites rw' = 0 \<and>
         committed (rw_db rw') = committed (rw_db rw) \<and>
         calls (rw_db rw') = calls (rw_db rw) @ [CallCommit] \<and>
         faults (rw_db rw') = fs))
   \<and> (limitReached (rw_s rw) \<longrightarrow>
         Flush rw = (Some (Errorf flushErrFmt ErrLimitReached), rw))"
  by (simp add: step_defs)

theorem Flush_commit_error_resets_witness:
  "pendingT (rw_txn (snd (WriteTraceSampled (sample_rw 0 [None, Some (ErrOther 7)]) ''t1'' True))) \<noteq> []
   \<and> pendingWrites (snd (WriteTraceSampled (sample_rw 0 [None, Some (ErrOther 7)]) ''t1'' True)) = 1
   \<and> fst (Flush (snd (WriteTraceSampled (sample_rw 0 [None, Some (ErrOther 7)]) ''t1'' True)))
       = Some (Errorf flushErrFmt (ErrOther 7))
   \<and> pendingT (rw_txn (snd (Flush (snd (WriteTraceSampled (sample_rw 0 [None, Some (ErrOther 7)]) ''t1'' True))))) = []
   \<and> committed (rw_db (snd (Flush (snd (WriteTraceSampled (sample_rw 0 [None, Some (ErrOther 7)]) ''t1'' True))))) = []
   \<and> pendingWrites (snd (Flush (snd (WriteTraceSampled (sample_rw 0 [None, Some (ErrOther 7)]) ''t1'' True)))) = 0"
proof -
  let ?rw = "snd (WriteTraceSampled (sample_rw 0 [None, Some (ErrOther 7)]) ''t1'' True)"
  have a: "\<not> limitReached (rw_s ?rw)" "faults (rw_db ?rw) = Some (ErrOther 7) # []"
    "pendingT (rw_txn ?rw) \<noteq> []" "pendingWrites ?rw = 1" "committed (rw_db ?rw) = []"
    by (simp_all add: WriteTraceSampled_def writeEntry_def step_defs sample_rw_def sample_db_def
        NewReadWriter_def limitReached_iff rw_db_def set_db_def upsert_def Let_def)
  show ?thesis
    using Flush_commit_error_resets [of ?rw "ErrOther 7" "[]"] a by auto
qed

lemma DeleteTraceEvent_frame:
  "DeleteTraceEvent rw traceID eid =
     (case faults (rw_db rw) of [] \<Rightarrow> None | f # _ \<Rightarrow> f,
      (set_db ((rw_db rw)\<lparr>faults := tl (faults (rw_db rw)), calls := calls (rw_db rw) @ [CallDelete]\<rparr>) rw)
        \<lparr>rw_txn := (rw_txn rw)\<lparr>pendingT :=
            (if (case faults (rw_db rw) of [] \<Rightarrow> None | f # _ \<Rightarrow> f) = None
             then upsert \<lparr>Key = eventKey traceID eid, Value = [], UserMeta = CHR 0x00,
                          ExpiresAt = 0, bitDelete = True\<rparr> (pendingT (rw_txn rw))
             else pendingT (rw_txn rw))\<rparr>\<rparr>)"
  by (simp add: DeleteTraceEvent_def txn_Delete_def engine_step_cases Let_def
      split: list.splits option.splits)

text \<open>The effect of a sequence of deletions on the writer.\<close>

lemma deleteMany_frame:
  "pendingWrites (deleteMany rw ks) = pendingWrites rw
   \<and> calls (rw_db (deleteMany rw ks)) = calls (rw_db rw) @ replicate (length ks) CallDelete
   \<and> committed (rw_db (deleteMany rw ks)) = committed (rw_db rw)
   \<and> snapshot (rw_txn (deleteMany rw ks)) = snapshot (rw_txn rw)
   \<and> readKeyBuf (deleteMany rw ks) = readKeyBuf rw
   \<and> codec (rw_s (deleteMany rw ks)) = codec (rw_s rw)
   \<and> ttl (rw_s (deleteMany rw ks)) = ttl (rw_s rw)
   \<and> limit (rw_s (deleteMany rw ks)) = limit (rw_s rw)
   \<and> lsm (rw_db (deleteMany rw ks)) = lsm (rw_db rw)
   \<and> vlog (rw_db (deleteMany rw ks)) = vlog (rw_db rw)
   \<and> clock (rw_db (deleteMany rw ks)) = clock (rw_db rw)
   \<and> (\<forall>x \<in> set (pendingT (rw_txn (deleteMany rw ks))).
         x \<in> set (pendingT (rw_txn rw)) \<or>
         (bitDelete x \<and> (\<exists>k \<in> set ks. Key x = eventKey (fst k) (snd k))))"
proof (induction ks arbitrary: rw)
  case Nil
  show ?case by simp
next
  case (Cons k ks)
  obtain traceID eid where k: "k = (traceID, eid)" by (cases k)
  let ?rw1 = "snd (DeleteTraceEvent rw traceID eid)"
  have step: "pendingWrites ?rw1 = pendingWrites rw"
    "calls (rw_db ?rw1) = calls (rw_db rw) @ [CallDelete]"
    "committed (rw_db ?rw1) = committed (rw_db rw)"
    "snapshot (rw_txn ?rw1) = snapshot (rw_txn rw)"
    "readKeyBuf ?rw1 = readKeyBuf rw"
    "codec (rw_s ?rw1) = codec (rw_s rw)"
    "ttl (rw_s ?rw1) = ttl (rw_s rw)"
    "limit (rw_s ?rw1) = limit (rw_s rw)"
    "lsm (rw_db ?rw1) = lsm (rw_db rw)"
    "vlog (rw_db ?rw1) = vlog (rw_db rw)"
    "clock (rw_db ?rw1) = clock (rw_db rw)"
    by (simp_all add: DeleteTraceEvent_frame)
  have pend: "\<forall>x \<in> set (pendingT (rw_txn ?rw1)).
      x \<in> set (pendingT (rw_txn rw)) \<or> (bitDelete x \<and> Key x = eventKey traceID eid)"
    by (auto simp: DeleteTraceEvent_frame upsert_def)
  have dm: "deleteMany rw (k # ks) = deleteMany ?rw1 ks"
    by (simp add: k)
  note ih = Cons.IH [of ?rw1]
  have "\<forall>x \<in> set (pendingT (rw_txn (deleteMany ?rw1 ks))).
         x \<in> set (pendingT (rw_txn rw)) \<or>
         (bitDelete x \<and> (\<exists>k' \<in> set (k # ks). Key x = eventKey (fst k') (snd k')))"
  proof
    fix x assume "x \<in> set (pendingT (rw_txn (deleteMany ?rw1 ks)))"
    with ih have "x \<in> set (pendingT (rw_txn ?rw1)) \<or>
         (bitDelete x \<and> (\<exists>k' \<in> set ks. Key x = eventKey (fst k') (snd k')))"
      by blast
    with pend show "x \<in> set (pendingT (rw_txn rw)) \<or>
         (bitDelete x \<and> (\<exists>k' \<in> set (k # ks). Key x = eventKey (fst k') (snd k')))"
      by (auto simp: k)
  qed
  with ih step show ?case
    unfolding dm by (simp add: replicate_append_same)
qed

lemma DeleteTraceEvent_step:
  "DeleteTraceEvent rw traceID eid =
     (next_outcome (rw_db rw),
      rw\<lparr>rw_s := (rw_s rw)\<lparr>db := (rw_db rw)\<lparr>faults := tl (faults (rw_db rw)),
                                              calls := calls (rw_db rw) @ [CallDelete]\<rparr>\<rparr>,
         rw_txn := (rw_txn rw)\<lparr>pendingT :=
           (if next_outcome (rw_db rw) = None
            then upsert \<lparr>Key = eventKey traceID eid, Value = [], UserMeta = CHR 0x00,
                         ExpiresAt = 0, bitDelete = True\<rparr> (pendingT (rw_txn rw))
            else pendingT (rw_txn rw))\<rparr>\<rparr>)"
  by (simp add: DeleteTraceEvent_frame next_outcome_def set_db_def)

lemma deleteMany_state:
  "deleteMany rw ks =
     rw\<lparr>rw_s := (rw_s rw)\<lparr>db := (rw_db rw)\<lparr>faults := drop (length ks) (faults (rw_db rw)),
                                             calls := calls (rw_db rw) @ replicate (length ks) CallDelete\<rparr>\<rparr>,
        rw_txn := (rw_txn rw)\<lparr>pendingT := pendingT (rw_txn (deleteMany rw ks))\<rparr>\<rparr>"
proof (induction ks arbitrary: rw)
  case Nil
  show ?case by (simp add: rw_db_def)
next
  case (Cons k ks)
  obtain traceID eid where k: "k = (traceID, eid)" by (cases k)
  let ?rw1 = "snd (DeleteTraceEvent rw traceID eid)"
  have dm: "deleteMany rw (k # ks) = deleteMany ?rw1 ks"
    by (simp add: k)
  show ?case
    unfolding dm
    by (subst Cons.IH [of ?rw1])
      (simp add: DeleteTraceEvent_step rw_db_def drop_Suc replicate_append_same)
qed

lemma deleteMany_other_keys:
  "(\<forall>k \<in> set ks. \<not> q (eventKey (fst k) (snd k))) \<Longrightarrow>
   filter (\<lambda>x. q (Key x)) (pendingT (rw_txn (deleteMany rw ks))) =
   filter (\<lambda>x. q (Key x)) (pendingT (rw_txn rw))"
proof (induction ks arbitrary: rw)
  case Nil
  show ?case by simp
next
  case (Cons k ks)
  obtain traceID eid where k: "k = (traceID, eid)" by (cases k)
  let ?rw1 = "snd (DeleteTraceEvent rw traceID eid)"
  have "filter (\<lambda>x. q (Key x)) (pendingT (rw_txn (deleteMany ?rw1 ks))) =
        filter (\<lambda>x. q (Key x)) (pendingT (rw_txn ?rw1))"
    using Cons.prems by (intro Cons.IH) simp
  also have "\<dots> = filter (\<lambda>x. q (Key x)) (pendingT (rw_txn rw))"
    using Cons.prems by (simp add: DeleteTraceEvent_step filter_keys_upsert k)
  finally show ?case by (simp add: k)
qed

lemma deleteMany_no_fault:
  "faults (rw_db rw) = [] \<Longrightarrow>
   pendingT (rw_txn (deleteMany rw ks)) =
     foldl (\<lambda>ps k. upsert \<lparr>Key = eventKey (fst k) (snd k), Value = [], UserMeta = CHR 0x00,
                            ExpiresAt = 0, bitDelete = True\<rparr> ps) (pendingT (rw_txn rw)) ks"
proof (induction ks arbitrary: rw)
  case Nil
  show ?case by simp
next
  case (Cons k ks)
  obtain traceID eid where k: "k = (traceID, eid)" by (cases k)
  let ?rw1 = "snd (DeleteTraceEvent rw traceID eid)"
  have f: "faults (rw_db ?rw1) = []"
    using Cons.prems by (simp add: DeleteTraceEvent_step rw_db_def)
  show ?case
    using Cons.IH [OF f] Cons.prems
    by (simp add: k DeleteTraceEvent_step next_outcome_def)
qed


text \<open>
  C10. DeleteTraceEvent returns what the engine's Delete returns and changes nothing but
  the engine's fault script and call log and, when the Delete succeeds, the open
  transaction, where the deletion mark replaces the buffered entry for that key and every
  other buffered entry stays in place. It never touches the pending-write counter, never
  checks the quota and never flushes: after any number of calls the writer is the one
  before, with one Delete call per call logged and no Commit, and with the open
  transaction's buffer changed only at the given keys; the buffered entries for all other
  keys are the same, in the same order, and every new entry is a deletion mark for one of
  the given keys. The counter, the committed store, the snapshot, the key buffer, the
  storage settings and the engine's sizes and clock are as before.
\<close>

theorem DeleteTraceEvent_no_flush:
  "DeleteTraceEvent rw traceID eid =
     (next_outcome (rw_db rw),
      rw\<lparr>rw_s := (rw_s rw)\<lparr>db := (rw_db rw)\<lparr>faults := tl (faults (rw_db rw)),
                                              calls := calls (rw_db rw) @ [CallDelete]\<rparr>\<rparr>,
         rw_txn := (rw_txn rw)\<lparr>pendingT :=
           (if next_outcome (rw_db rw) = None
            then upsert \<lparr>Key = eventKey traceID eid, Value = [], UserMeta = CHR 0x00,
                         ExpiresAt = 0, bitDelete = True\<rparr> (pendingT (rw_txn rw))
            else pendingT (rw_txn rw))\<rparr>\<rparr>)
   \<and> deleteMany rw ks =
        rw\<lparr>rw_s := (rw_s rw)\<lparr>db := (rw_db rw)\<lparr>faults := drop (length ks) (faults (rw_db rw)),
                                                calls := calls (rw_db rw) @ replicate (length ks) CallDelete\<rparr>\<rparr>,
           rw_txn := (rw_txn rw)\<lparr>pendingT := pendingT (rw_txn (deleteMany rw ks))\<rparr>\<rparr>
   \<and> filter (\<lambda>x. Key x \<notin> (\<lambda>k. eventKey (fst k) (snd k)) ` set ks)
         (pendingT (rw_txn (deleteMany rw ks))) =
       filter (\<lambda>x. Key x \<notin> (\<lambda>k. eventKey (fst k) (snd k)) ` set ks) (pendingT (rw_txn rw))
   \<and> (faults (rw_db rw) = [] \<longrightarrow>
        pendingT (rw_txn (deleteMany rw ks)) =
          foldl (\<lambda>ps k. upsert \<lparr>Key = eventKey (fst k) (snd k), Value = [], UserMeta = CHR 0x00,
                                 ExpiresAt = 0, bitDelete = True\<rparr> ps) (pendingT (rw_txn rw)) ks)
   \<and> fst (DeleteTraceEvent rw traceID eid) = next_outcome (rw_db rw)
   \<and> pendingWrites (deleteMany rw ks) = pendingWrites rw
   \<and> calls (rw_db (deleteMany rw ks)) = calls (rw_db rw) @ replicate (length ks) CallDelete
   \<and> committed (rw_db (deleteMany rw ks)) = committed (rw_db rw)
   \<and> snapshot (rw_txn (deleteMany rw ks)) = snapshot (rw_txn rw)
   \<and> readKeyBuf (deleteMany rw ks) = readKeyBuf rw
   \<and> codec (rw_s (deleteMany rw ks)) = codec (rw_s rw)
   \<and> ttl (rw_s (deleteMany rw ks)) = ttl (rw_s rw)
   \<and> limit (rw_s (deleteMany rw ks)) = limit (rw_s rw)
   \<and> lsm (rw_db (deleteMany rw ks)) = lsm (rw_db rw)
   \<and> vlog (rw_db (deleteMany rw ks)) = vlog (rw_db rw)
   \<and> clock (rw_db (deleteMany rw ks)) = clock (rw_db rw)
   \<and> (\<forall>x \<in> set (pendingT (rw_txn (deleteMany rw ks))).
         x \<in> set (pendingT (rw_txn rw)) \<or>
         (bitDelete x \<and> (\<exists>k \<in> set ks. Key x = eventKey (fst k) (snd k))))"
proof -
  have other: "filter (\<lambda>x. Key x \<notin> (\<lambda>k. eventKey (fst k) (snd k)) ` set ks)
         (pendingT (rw_txn (deleteMany rw ks))) =
       filter (\<lambda>x. Key x \<notin> (\<lambda>k. eventKey (fst k) (snd k)) ` set ks) (pendingT (rw_txn rw))"
    by (rule deleteMany_other_keys) simp
  have step: "fst (DeleteTraceEvent rw traceID eid) = next_outcome (rw_db rw)"
    by (simp add: DeleteTraceEvent_step)
  show ?thesis
    using deleteMany_frame [of rw ks] deleteMany_no_fault [of rw ks]
    by (intro conjI DeleteTraceEvent_step deleteMany_state other step) simp_all
qed

theorem DeleteTraceEvent_no_flush_witness:
  "fst (Flush ((sample_rw 90 [])\<lparr>pendingWrites := 500\<rparr>)) = Some (Errorf flushErrFmt ErrLimitReached)
   \<and> fst (DeleteTraceEvent ((sample_rw 90 [])\<lparr>pendingWrites := 500\<rparr>) ''t1'' ''a'') = None
   \<and> pendingWrites (deleteMany ((sample_rw 90 [])\<lparr>pendingWrites := 500\<rparr>) [(''t1'', ''a''), (''t1'', ''b'')]) = 500
   \<and> calls (rw_db (deleteMany ((sample_rw 90 [])\<lparr>pendingWrites := 500\<rparr>) [(''t1'', ''a''), (''t1'', ''b'')]))
       = [CallDelete, CallDelete]
   \<and> map Key (pendingT (rw_txn (deleteMany ((sample_rw 90 [])\<lparr>pendingWrites := 500\<rparr>) [(''t1'', ''a''), (''t1'', ''b'')])))
       = [''t1:b'', ''t1:a'']
   \<and> deleteMany ((sample_rw 90 [])\<lparr>pendingWrites := 500\<rparr>) [(''t1'', ''a''), (''t1'', ''b'')] =
       (sample_rw 90 [])
         \<lparr>rw_s := (rw_s (sample_rw 90 []))\<lparr>db := sample_db\<lparr>calls := [CallDelete, CallDelete]\<rparr>\<rparr>,
          rw_txn := (rw_txn (sample_rw 90 []))\<lparr>pendingT :=
            [\<lparr>Key = ''t1:b'', Value = [], UserMeta = CHR 0x00, ExpiresAt = 0, bitDelete = True\<rparr>,
             \<lparr>Key = ''t1:a'', Value = [], UserMeta = CHR 0x00, ExpiresAt = 0, bitDelete = True\<rparr>]\<rparr>,
          pendingWrites := 500\<rparr>
   \<and> map Key (pendingT (rw_txn (snd (WriteTraceEvent (sample_rw 0 []) ''t2'' ''z'' ''ev'')))) = [''t2:z'']
   \<and> map Key (pendingT (rw_txn (deleteMany (snd (WriteTraceEvent (sample_rw 0 []) ''t2'' ''z'' ''ev''))
         [(''t1'', ''a''), (''t1'', ''b'')]))) = [''t1:b'', ''t1:a'', ''t2:z'']
   \<and> filter (\<lambda>x. Key x = ''t2:z'')
         (pendingT (rw_txn (deleteMany (snd (WriteTraceEvent (sample_rw 0 []) ''t2'' ''z'' ''ev''))
            [(''t1'', ''a''), (''t1'', ''b'')]))) =
       pendingT (rw_txn (snd (WriteTraceEvent (sample_rw 0 []) ''t2'' ''z'' ''ev'')))
   \<and> pendingWrites (deleteMany (snd (WriteTraceEvent (sample_rw 0 []) ''t2'' ''z'' ''ev''))
         [(''t1'', ''a''), (''t1'', ''b'')]) = 1"
  using DeleteTraceEvent_no_flush [of "(sample_rw 90 [])\<lparr>pendingWrites := 500\<rparr>" "''t1''" "''a''"
      "[(''t1'', ''a''), (''t1'', ''b'')]"]
    DeleteTraceEvent_no_flush [of "snd (WriteTraceEvent (sample_rw 0 []) ''t2'' ''z'' ''ev'')" "''t1''" "''a''"
      "[(''t1'', ''a''), (''t1'', ''b'')]"]
  by (simp add: DeleteTraceEvent_frame eval_defs limitReached_iff NewTransaction_def rw_db_def
      set_db_def upsert_def eventKey_def next_outcome_def NewEntry_def WithMeta_def WithTTL_def
      Let_def)

lemma rw_SetEntry_calls:
  "calls (rw_db (snd (rw_SetEntry rw e))) = calls (rw_db rw) @ [CallSetEntry]"
  by (simp add: rw_SetEntry_def txn_SetEntry_def engine_step_cases
      split: prod.splits option.splits list.splits)

lemma Flush_calls:
  "calls (rw_db (snd (Flush rw))) =
     calls (rw_db rw) @ (if limitReached (rw_s rw) then [] else [CallCommit])"
  by (simp add: Flush_def txn_Commit_def engine_step_cases Let_def
      split: prod.splits option.splits list.splits)

lemma writeEntry_paths:
  assumes "rw2 = snd (rw_SetEntry (rw\<lparr>pendingWrites := pendingWrites rw + 1\<rparr>) e)"
    and "rw3 = (if 200 \<le> sint (pendingWrites rw2) then snd (Flush rw2) else rw2)"
  shows "snd (writeEntry rw e) = rw3 \<or>
         (snd (writeEntry rw e) = snd (Flush rw3) \<and> fst (Flush rw3) \<noteq> None) \<or>
         (snd (writeEntry rw e) = snd (rw_SetEntry (snd (Flush rw3)) e) \<and> fst (Flush rw3) = None)"
  unfolding assms
  by (auto simp: writeEntry_def Let_def split: prod.splits option.splits)

lemma writeEntry_calls:
  "\<exists>cs. calls (rw_db (snd (writeEntry rw e))) = calls (rw_db rw) @ CallSetEntry # cs \<and>
     cs \<in> {[], [CallCommit], [CallCommit, CallSetEntry], [CallCommit, CallCommit],
            [CallCommit, CallCommit, CallSetEntry]}"
proof -
  define rw2 where "rw2 = snd (rw_SetEntry (rw\<lparr>pendingWrites := pendingWrites rw + 1\<rparr>) e)"
  define rw3 where "rw3 = (if 200 \<le> sint (pendingWrites rw2) then snd (Flush rw2) else rw2)"
  define rw4 where "rw4 = snd (Flush rw3)"
  define rw5 where "rw5 = snd (rw_SetEntry rw4 e)"
  have c2: "calls (rw_db rw2) = calls (rw_db rw) @ [CallSetEntry]"
    by (simp add: rw2_def rw_SetEntry_calls)
  have c3: "calls (rw_db rw3) = calls (rw_db rw) @ [CallSetEntry] \<or>
            calls (rw_db rw3) = calls (rw_db rw) @ [CallSetEntry, CallCommit]"
    using c2 by (simp add: rw3_def Flush_calls)
  have c4: "calls (rw_db rw4) = calls (rw_db rw3) \<or>
            calls (rw_db rw4) = calls (rw_db rw3) @ [CallCommit]"
    by (simp add: rw4_def Flush_calls)
  have c5: "calls (rw_db rw5) = calls (rw_db rw4) @ [CallSetEntry]"
    by (simp add: rw5_def rw_SetEntry_calls)
  have lim: "fst (Flush rw3) = None \<Longrightarrow> calls (rw_db rw4) = calls (rw_db rw3) @ [CallCommit]"
    by (cases "limitReached (rw_s rw3)") (simp_all add: rw4_def Flush_calls Flush_limit)
  consider (a) "snd (writeEntry rw e) = rw3"
    | (b) "snd (writeEntry rw e) = rw4" "fst (Flush rw3) \<noteq> None"
    | (c) "snd (writeEntry rw e) = rw5" "fst (Flush rw3) = None"
    using writeEntry_paths [OF rw2_def rw3_def] unfolding rw4_def rw5_def by auto
  then show ?thesis
  proof cases
    case a
    with c3 show ?thesis by auto
  next
    case b
    with c3 c4 show ?thesis by auto
  next
    case c
    with c3 c5 lim [OF c(2)] show ?thesis by auto
  qed
qed

lemma writeEntry_first_outcome:
  assumes "next_outcome (rw_db rw) \<noteq> Some ErrTxnTooBig"
  shows "\<exists>cs. calls (rw_db (snd (writeEntry rw e))) = calls (rw_db rw) @ CallSetEntry # cs \<and>
           cs \<in> {[], [CallCommit]}"
proof -
  define rw2 where "rw2 = snd (rw_SetEntry (rw\<lparr>pendingWrites := pendingWrites rw + 1\<rparr>) e)"
  define rw3 where "rw3 = (if 200 \<le> sint (pendingWrites rw2) then snd (Flush rw2) else rw2)"
  have o1: "fst (rw_SetEntry (rw\<lparr>pendingWrites := pendingWrites rw + 1\<rparr>) e) \<noteq> Some ErrTxnTooBig"
    using assms
    by (auto simp: rw_SetEntry_def txn_SetEntry_def engine_step_cases next_outcome_def
        split: prod.splits option.splits list.splits)
  have "snd (writeEntry rw e) = rw3"
    using o1 unfolding rw2_def rw3_def
    by (auto simp: writeEntry_def Let_def split: prod.splits option.splits)
  moreover have "calls (rw_db rw2) = calls (rw_db rw) @ [CallSetEntry]"
    by (simp add: rw2_def rw_SetEntry_calls)
  ultimately show ?thesis
    by (simp add: rw3_def Flush_calls)
qed

lemma writeEntry_retry_script:
  assumes f: "faults (rw_db rw) = Some ErrTxnTooBig # replicate n None @ o2 # fs"
    and n: "n = (if 200 \<le> sint (pendingWrites rw + 1) then 2 else 1)"
    and l: "\<not> limitReached (rw_s rw)"
  shows "\<exists>rw'. writeEntry rw e = (o2, rw') \<and>
           calls (rw_db rw') =
             calls (rw_db rw) @ CallSetEntry # replicate n CallCommit @ [CallSetEntry] \<and>
           faults (rw_db rw') = fs \<and>
           pendingT (rw_txn rw') = (if o2 = None then [e] else []) \<and>
           committed (rw_db rw') = merged (pendingT (rw_txn rw)) (committed (rw_db rw))"
proof (cases "200 \<le> sint (pendingWrites rw + 1)")
  case True
  with n have n2: "n = 2" by simp
  show ?thesis
    using f l True unfolding n2
    by (cases o2)
       (simp_all add: writeEntry_def step_defs limitReached_iff rw_db_def set_db_def Let_def
          numeral_2_eq_2 upsert_def)
next
  case False
  with n have n1: "n = 1" by simp
  show ?thesis
    using f l False unfolding n1
    by (cases o2)
       (simp_all add: writeEntry_def step_defs limitReached_iff rw_db_def set_db_def Let_def
          upsert_def)
qed































text \<open>
  C4. A write sets its entry at most twice. When the engine rejects the first attempt as
  too big, the writer flushes (once, or twice when the counter also reached 200) and sets
  the entry once more on the new transaction; what that second attempt returns, a second
  too-big rejection included, is what the caller gets, and the engine is asked nothing
  further. Any other first outcome leads to no second attempt.
\<close>

theorem writeEntry_retry_once:
  "length (filter (\<lambda>c. c = CallSetEntry) (calls (rw_db (snd (writeEntry rw e)))))
     \<le> length (filter (\<lambda>c. c = CallSetEntry) (calls (rw_db rw))) + 2
   \<and> (next_outcome (rw_db rw) \<noteq> Some ErrTxnTooBig \<longrightarrow>
        length (filter (\<lambda>c. c = CallSetEntry) (calls (rw_db (snd (writeEntry rw e)))))
          = length (filter (\<lambda>c. c = CallSetEntry) (calls (rw_db rw))) + 1)
   \<and> (faults (rw_db rw) = Some ErrTxnTooBig # replicate n None @ o2 # fs \<and>
      n = (if 200 \<le> sint (pendingWrites rw + 1) then 2 else 1) \<and>
      \<not> limitReached (rw_s rw) \<longrightarrow>
      (\<exists>rw'. writeEntry rw e = (o2, rw') \<and>
         calls (rw_db rw') =
           calls (rw_db rw) @ CallSetEntry # replicate n CallCommit @ [CallSetEntry] \<and>
         faults (rw_db rw') = fs \<and>
         pendingT (rw_txn rw') = (if o2 = None then [e] else []) \<and>
         committed (rw_db rw') = merged (pendingT (rw_txn rw)) (committed (rw_db rw))))"
proof (intro conjI impI)
  from writeEntry_calls [of rw e]
  show "length (filter (\<lambda>c. c = CallSetEntry) (calls (rw_db (snd (writeEntry rw e)))))
     \<le> length (filter (\<lambda>c. c = CallSetEntry) (calls (rw_db rw))) + 2"
    by auto
next
  assume "next_outcome (rw_db rw) \<noteq> Some ErrTxnTooBig"
  from writeEntry_first_outcome [OF this, of e]
  show "length (filter (\<lambda>c. c = CallSetEntry) (calls (rw_db (snd (writeEntry rw e)))))
          = length (filter (\<lambda>c. c = CallSetEntry) (calls (rw_db rw))) + 1"
    by auto
next
  assume "faults (rw_db rw) = Some ErrTxnTooBig # replicate n None @ o2 # fs \<and>
      n = (if 200 \<le> sint (pendingWrites rw + 1) then 2 else 1) \<and>
      \<not> limitReached (rw_s rw)"
  then show "\<exists>rw'. writeEntry rw e = (o2, rw') \<and>
         calls (rw_db rw') =
           calls (rw_db rw) @ CallSetEntry # replicate n CallCommit @ [CallSetEntry] \<and>
         faults (rw_db rw') = fs \<and>
         pendingT (rw_txn rw') = (if o2 = None then [e] else []) \<and>
         committed (rw_db rw') = merged (pendingT (rw_txn rw)) (committed (rw_db rw))"
    using writeEntry_retry_script [of rw n o2 fs e] by blast
qed

theorem writeEntry_retry_once_witness:
  "fst (writeEntry (sample_rw 0 [Some ErrTxnTooBig, None, Some ErrTxnTooBig, None]) (NewEntry ''k'' ''v''))
     = Some ErrTxnTooBig
   \<and> calls (rw_db (snd (writeEntry (sample_rw 0 [Some ErrTxnTooBig, None, Some ErrTxnTooBig, None])
        (NewEntry ''k'' ''v'')))) = [CallSetEntry, CallCommit, CallSetEntry]
   \<and> faults (rw_db (snd (writeEntry (sample_rw 0 [Some ErrTxnTooBig, None, Some ErrTxnTooBig, None])
        (NewEntry ''k'' ''v'')))) = [None]"
proof -
  let ?rw = "sample_rw 0 [Some ErrTxnTooBig, None, Some ErrTxnTooBig, None]"
  have h: "faults (rw_db ?rw) = Some ErrTxnTooBig # replicate 1 None @ Some ErrTxnTooBig # [None]"
    "(1::nat) = (if 200 \<le> sint (pendingWrites ?rw + 1) then 2 else 1)"
    "\<not> limitReached (rw_s ?rw)"
    by (simp_all add: sample_rw_def sample_db_def NewReadWriter_def rw_db_def limitReached_iff)
  have c: "calls (rw_db ?rw) = []"
    by (simp add: sample_rw_def sample_db_def NewReadWriter_def rw_db_def)
  from writeEntry_retry_once [of ?rw "NewEntry ''k'' ''v''" 1 "Some ErrTxnTooBig" "[None]"] h
  obtain rw' where "writeEntry ?rw (NewEntry ''k'' ''v'') = (Some ErrTxnTooBig, rw')"
    "calls (rw_db rw') = calls (rw_db ?rw) @ CallSetEntry # replicate 1 CallCommit @ [CallSetEntry]"
    "faults (rw_db rw') = [None]"
    by blast
  then show ?thesis by (simp add: c)
qed

subsection \<open>Point lookups\<close>

lemma txn_Get_found:
  assumes "next_outcome d = None"
    and "filter (\<lambda>x. Key x = k) (txn_view t) = [e]"
    and "\<not> isDeletedOrExpired (clock d) e"
  shows "fst (txn_Get d t k) = Inr e"
  using assms by (simp add: txn_Get_def engine_step_outcome find_filter_conv)

lemma txn_Get_missing:
  assumes "next_outcome d = None"
    and "\<forall>x \<in> set (txn_view t). Key x = k \<longrightarrow> isDeletedOrExpired (clock d) x"
  shows "fst (txn_Get d t k) = Inl ErrKeyNotFound"
proof (cases "filter (\<lambda>x. Key x = k) (txn_view t)")
  case Nil
  with assms(1) show ?thesis
    by (simp add: txn_Get_def engine_step_outcome find_filter_conv)
next
  case (Cons y ys)
  then have "y \<in> set (filter (\<lambda>x. Key x = k) (txn_view t))" by simp
  then have "y \<in> set (txn_view t)" "Key y = k" by auto
  with assms(2) have "isDeletedOrExpired (clock d) y" by blast
  with assms(1) Cons show ?thesis
    by (simp add: txn_Get_def engine_step_outcome find_filter_conv)
qed

lemma IsTraceSampled_result:
  "fst (IsTraceSampled rw traceID) =
     (case fst (txn_Get (rw_db rw) (rw_txn rw) traceID) of
        Inl err \<Rightarrow> (False, Some (if err = ErrKeyNotFound then ErrNotFound else err))
      | Inr item \<Rightarrow> (UserMeta item = entryMetaTraceSampled, None))"
  by (simp add: IsTraceSampled_def Let_def split: prod.splits sum.splits)

text \<open>
  The translation of the engine's miss: when the engine's lookup itself does not fail and
  the open transaction sees no live entry of any kind under the key of the trace ID (none
  buffered, none in its snapshot of the committed store), IsTraceSampled returns false with
  ErrNotFound; the engine's ErrKeyNotFound is never passed on and never turned into
  (false, nil).
\<close>

theorem IsTraceSampled_not_found:
  assumes "next_outcome (rw_db rw) = None"
    and "\<forall>x \<in> set (pendingT (rw_txn rw)) \<union> set (snapshot (rw_txn rw)).
           Key x = traceID \<longrightarrow> isDeletedOrExpired (clock (rw_db rw)) x"
  shows "fst (IsTraceSampled rw traceID) = (False, Some ErrNotFound)"
proof -
  have "set (txn_view (rw_txn rw)) \<subseteq> set (pendingT (rw_txn rw)) \<union> set (snapshot (rw_txn rw))"
    by (simp add: txn_view_def set_merged)
  with assms(2)
  have "\<forall>x \<in> set (txn_view (rw_txn rw)). Key x = traceID \<longrightarrow> isDeletedOrExpired (clock (rw_db rw)) x"
    by blast
  from txn_Get_missing [OF assms(1) this] show ?thesis
    by (simp add: IsTraceSampled_result)
qed

theorem IsTraceSampled_not_found_witness:
  "fst (IsTraceSampled (sample_rw 0 []) ''0af7651916cd43dd8448eb211c80319c'') = (False, Some ErrNotFound)"
  using IsTraceSampled_not_found [of "sample_rw 0 []" "''0af7651916cd43dd8448eb211c80319c''"]
  by (simp add: sample_rw_def sample_db_def NewReadWriter_def NewTransaction_def rw_db_def
      next_outcome_def)

text \<open>
  C8. For a trace ID for which no decision record exists, neither buffered nor committed,
  IsTraceSampled is to return ErrNotFound, never (false, nil). The code does not, where an
  event key coincides with the trace ID: on a fresh writer, after the event \<open>b\<close> of trace
  \<open>a\<close> is written, the only entry is that event, tagged as an event, under the key
  \<open>a:b\<close>; no decision was recorded for the trace \<open>a:b\<close>, and IsTraceSampled answers
  (false, nil) for it. The lookup reads whatever entry it finds as a decision, without
  looking at the tag as ReadTraceEvents does.
\<close>

theorem IsTraceSampled_reads_event_as_decision:
  "fst (WriteTraceEvent (sample_rw 0 []) ''a'' ''b'' ''payload'') = None
   \<and> map Key (pendingT (rw_txn (snd (WriteTraceEvent (sample_rw 0 []) ''a'' ''b'' ''payload''))))
       = [''a:b'']
   \<and> map UserMeta (pendingT (rw_txn (snd (WriteTraceEvent (sample_rw 0 []) ''a'' ''b'' ''payload''))))
       = [entryMetaTraceEvent]
   \<and> snapshot (rw_txn (snd (WriteTraceEvent (sample_rw 0 []) ''a'' ''b'' ''payload''))) = []
   \<and> committed (rw_db (snd (WriteTraceEvent (sample_rw 0 []) ''a'' ''b'' ''payload''))) = []
   \<and> fst (IsTraceSampled (snd (WriteTraceEvent (sample_rw 0 []) ''a'' ''b'' ''payload'')) ''a:b'')
       = (False, None)"
  by (simp add: eval_defs)

lemma rw_SetEntry_clock [simp]:
  "clock (rw_db (snd (rw_SetEntry rw e))) = clock (rw_db rw)"
  "codec (rw_s (snd (rw_SetEntry rw e))) = codec (rw_s rw)"
  by (simp_all add: rw_SetEntry_def txn_SetEntry_def engine_step_outcome split: prod.splits option.splits)

lemma Flush_clock [simp]:
  "clock (rw_db (snd (Flush rw))) = clock (rw_db rw)"
  "codec (rw_s (snd (Flush rw))) = codec (rw_s rw)"
  by (simp_all add: Flush_def txn_Commit_def engine_step_outcome Let_def
      split: prod.splits option.splits)

lemma writeEntry_clock:
  "clock (rw_db (snd (writeEntry rw e))) = clock (rw_db rw)"
  "codec (rw_s (snd (writeEntry rw e))) = codec (rw_s rw)"
proof -
  define rw2 where "rw2 = snd (rw_SetEntry (rw\<lparr>pendingWrites := pendingWrites rw + 1\<rparr>) e)"
  define rw3 where "rw3 = (if 200 \<le> sint (pendingWrites rw2) then snd (Flush rw2) else rw2)"
  have a: "clock (rw_db rw3) = clock (rw_db rw)" "codec (rw_s rw3) = codec (rw_s rw)"
    by (simp_all add: rw3_def rw2_def)
  from writeEntry_paths [OF rw2_def rw3_def] a
  show "clock (rw_db (snd (writeEntry rw e))) = clock (rw_db rw)"
    "codec (rw_s (snd (writeEntry rw e))) = codec (rw_s rw)"
    by auto
qed

lemma writeEntry_stored:
  assumes "writeEntry rw e = (None, rw')"
  shows "(\<exists>ps. pendingT (rw_txn rw') = upsert e ps) \<or>
         (pendingT (rw_txn rw') = [] \<and>
          (\<exists>ps xs. committed (rw_db rw') = merged (upsert e ps) xs) \<and>
          snapshot (rw_txn rw') = committed (rw_db rw'))"
proof -
  define rw1 where "rw1 = rw\<lparr>pendingWrites := pendingWrites rw + 1\<rparr>"
  obtain o1 rw2 where s1: "rw_SetEntry rw1 e = (o1, rw2)"
    by (cases "rw_SetEntry rw1 e")
  obtain f1 rw3 where f1: "(if 200 \<le> sint (pendingWrites rw2) then Flush rw2 else (None, rw2)) = (f1, rw3)"
    by (cases "if 200 \<le> sint (pendingWrites rw2) then Flush rw2 else (None, rw2)")
  from assms s1 f1 have f1N: "f1 = None"
    by (auto simp: writeEntry_def Let_def rw1_def split: option.splits)
  show ?thesis
  proof (cases "o1 = Some ErrTxnTooBig")
    case True
    with assms s1 f1 f1N obtain rw4 where f2: "Flush rw3 = (None, rw4)"
      and s2: "rw_SetEntry rw4 e = (None, rw')"
      by (auto simp: writeEntry_def Let_def rw1_def split: option.splits prod.splits)
    from rw_SetEntry_None(1) [OF s2] show ?thesis by blast
  next
    case False
    with assms s1 f1 f1N have o1: "o1 = None" and rw3: "rw3 = rw'"
      by (auto simp: writeEntry_def Let_def rw1_def split: option.splits prod.splits)
    note p2 = rw_SetEntry_None [OF s1 [unfolded o1]]
    show ?thesis
    proof (cases "200 \<le> sint (pendingWrites rw2)")
      case True
      with f1 f1N rw3 have fl: "Flush rw2 = (None, rw')" by simp
      from Flush_None [OF fl] p2 show ?thesis by auto
    next
      case False
      with f1 rw3 have "rw2 = rw'" by simp
      with p2 show ?thesis by auto
    qed
  qed
qed

text \<open>After a successful write the entry is the one the transaction sees under its key, and
  the one a commit of the transaction leaves in the committed store.\<close>

lemma writeEntry_visible:
  assumes "writeEntry rw e = (None, rw')"
  shows "filter (\<lambda>x. Key x = Key e) (txn_view (rw_txn rw')) = [e]"
    and "filter (\<lambda>x. Key x = Key e) (merged (pendingT (rw_txn rw')) (committed (rw_db rw'))) = [e]"
  using writeEntry_stored [OF assms]
  by (auto simp: txn_view_def filter_key_merged filter_key_upsert)

lemma Flush_visible:
  assumes "Flush rw = (None, rw')"
  shows "txn_view (rw_txn rw') = merged (pendingT (rw_txn rw)) (committed (rw_db rw))"
  using Flush_None [OF assms] by (simp add: txn_view_def)

lemma decision_entry_live:
  assumes "0 < dur"
  shows "\<not> isDeletedOrExpired now (WithTTL now dur (WithMeta m (NewEntry k v)))"
  using assms by (simp add: isDeletedOrExpired_def WithTTL_def WithMeta_def NewEntry_def)

text \<open>
  C7. After WriteTraceSampled(T, s) has returned nil, with a positive TTL and an engine
  lookup that does not itself fail, IsTraceSampled(T) on the same writer returns (s, nil):
  at once, while the decision is buffered in the open transaction or was committed by the
  write's own flush, and again after a Flush that returns nil.
\<close>

theorem IsTraceSampled_after_write:
  assumes w: "WriteTraceSampled rw traceID sampled = (None, rw1)"
    and t: "0 < ttl (rw_s rw)"
  shows "(next_outcome (rw_db rw1) = None \<longrightarrow>
            fst (IsTraceSampled rw1 traceID) = (sampled, None))
       \<and> (\<forall>rw2. Flush rw1 = (None, rw2) \<and> next_outcome (rw_db rw2) = None \<longrightarrow>
            fst (IsTraceSampled rw2 traceID) = (sampled, None))"
proof -
  define e where "e = WithTTL (clock (rw_db rw)) (ttl (rw_s rw))
     (WithMeta (if sampled then entryMetaTraceSampled else entryMetaTraceUnsampled)
        (NewEntry traceID []))"
  have we: "writeEntry rw e = (None, rw1)"
    using w by (simp add: WriteTraceSampled_def Let_def e_def)
  have key: "Key e = traceID"
    by (simp add: e_def WithTTL_def WithMeta_def NewEntry_def)
  have meta: "(UserMeta e = entryMetaTraceSampled) = sampled"
    by (simp add: e_def WithTTL_def WithMeta_def NewEntry_def
        entryMetaTraceSampled_def entryMetaTraceUnsampled_def)
  have live: "\<not> isDeletedOrExpired (clock (rw_db rw)) e"
    unfolding e_def by (rule decision_entry_live [OF t])
  have c1: "clock (rw_db rw1) = clock (rw_db rw)"
    using writeEntry_clock(1) [of rw e] we by simp
  note vis = writeEntry_visible [OF we, unfolded key]
  have now: "fst (IsTraceSampled rw1 traceID) = (sampled, None)" if "next_outcome (rw_db rw1) = None"
    using txn_Get_found [OF that vis(1)] live c1 meta by (simp add: IsTraceSampled_result)
  have later: "fst (IsTraceSampled rw2 traceID) = (sampled, None)"
    if fl: "Flush rw1 = (None, rw2)" and nf: "next_outcome (rw_db rw2) = None" for rw2
  proof -
    have v2: "filter (\<lambda>x. Key x = traceID) (txn_view (rw_txn rw2)) = [e]"
      using vis(2) by (simp add: Flush_visible [OF fl])
    have c2: "clock (rw_db rw2) = clock (rw_db rw)"
      using Flush_clock(1) [of rw1] fl c1 by simp
    show ?thesis
      using txn_Get_found [OF nf v2] live c2 meta by (simp add: IsTraceSampled_result)
  qed
  from now later show ?thesis by blast
qed

theorem IsTraceSampled_after_write_witness:
  "fst (WriteTraceSampled (sample_rw 0 []) ''t1'' True) = None
   \<and> fst (IsTraceSampled (snd (WriteTraceSampled (sample_rw 0 []) ''t1'' True)) ''t1'') = (True, None)
   \<and> fst (Flush (snd (WriteTraceSampled (sample_rw 0 []) ''t1'' True))) = None
   \<and> fst (IsTraceSampled (snd (Flush (snd (WriteTraceSampled (sample_rw 0 []) ''t1'' True)))) ''t1'')
       = (True, None)"
proof -
  define rw1 where "rw1 = snd (WriteTraceSampled (sample_rw 0 []) ''t1'' True)"
  define rw2 where "rw2 = snd (Flush rw1)"
  have w: "WriteTraceSampled (sample_rw 0 []) ''t1'' True = (None, rw1)"
    unfolding rw1_def
    by (simp add: WriteTraceSampled_def writeEntry_def step_defs sample_defs Let_def)
  have rw1: "faults (rw_db rw1) = []" "limit (rw_s rw1) = 0"
    unfolding rw1_def
    by (simp_all add: WriteTraceSampled_def writeEntry_def step_defs sample_defs Let_def)
  have f: "Flush rw1 = (None, rw2)"
    unfolding rw2_def using rw1
    by (simp add: step_defs limitReached_iff rw_db_def Let_def)
  have rw2: "faults (rw_db rw2) = []"
    unfolding rw2_def using rw1
    by (simp add: step_defs limitReached_iff rw_db_def set_db_def Let_def)
  have t: "0 < ttl (rw_s (sample_rw 0 []))"
    by (simp add: sample_defs)
  from IsTraceSampled_after_write [OF w t] f rw1 rw2
  have "fst (IsTraceSampled rw1 ''t1'') = (True, None)"
       "fst (IsTraceSampled rw2 ''t1'') = (True, None)"
    by (simp_all add: next_outcome_def)
  with w f show ?thesis
    by (simp add: rw1_def [symmetric] rw2_def [symmetric])
qed

subsection \<open>Prefix scans\<close>

lemma item_Value_no_fault:
  "faults d = [] \<Longrightarrow> item_Value d it = (Inr (Value it), d\<lparr>faults := [], calls := calls d @ [CallValue]\<rparr>)"
  by (simp add: item_Value_def engine_step_def)

lemma readLoop_no_fault:
  assumes "faults d = []"
    and "\<forall>x \<in> set items. \<not> isDeletedOrExpired (clock d) x \<and> UserMeta x = entryMetaTraceEvent \<longrightarrow>
           (\<exists>ev. DecodeEvent c (Value x) = Inr ev)"
  shows "fst (readLoop c d items out) = None \<and>
         snd (snd (readLoop c d items out)) =
           out @ map (\<lambda>x. projr (DecodeEvent c (Value x)))
                   (filter (\<lambda>x. \<not> isDeletedOrExpired (clock d) x \<and> UserMeta x = entryMetaTraceEvent) items)"
  using assms
proof (induction items arbitrary: d out)
  case Nil
  show ?case by simp
next
  case (Cons item items)
  show ?case
  proof (cases "\<not> isDeletedOrExpired (clock d) item \<and> UserMeta item = entryMetaTraceEvent")
    case True
    with Cons.prems(2) obtain ev where ev: "DecodeEvent c (Value item) = Inr ev"
      by auto
    let ?d' = "d\<lparr>faults := [], calls := calls d @ [CallValue]\<rparr>"
    have step: "readLoop c d (item # items) out = readLoop c ?d' items (out @ [ev])"
      using True ev by (simp add: item_Value_no_fault [OF Cons.prems(1)])
    have "fst (readLoop c ?d' items (out @ [ev])) = None \<and>
          snd (snd (readLoop c ?d' items (out @ [ev]))) =
            (out @ [ev]) @ map (\<lambda>x. projr (DecodeEvent c (Value x)))
               (filter (\<lambda>x. \<not> isDeletedOrExpired (clock ?d') x \<and> UserMeta x = entryMetaTraceEvent) items)"
      using Cons.prems(2) by (intro Cons.IH) simp_all
    with True ev show ?thesis
      unfolding step by simp
  next
    case False
    then have step: "readLoop c d (item # items) out = readLoop c d items out"
      by auto
    from Cons.IH [OF Cons.prems(1), of out] Cons.prems(2) False show ?thesis
      unfolding step by simp
  qed
qed

lemma filter_key_Iterate:
  assumes "take (length pfx) k = pfx"
  shows "filter (\<lambda>x. Key x = k) (txn_Iterate t pfx) =
         sort_key Key (filter (\<lambda>x. Key x = k) (txn_view t))"
proof -
  have "filter (\<lambda>x. Key x = k) (filter (\<lambda>x. take (length pfx) (Key x) = pfx) (txn_view t))
      = filter (\<lambda>x. Key x = k) (txn_view t)"
    using assms by (auto intro: filter_cong)
  then show ?thesis
    by (simp add: txn_Iterate_def filter_sort)
qed

lemma count_single_key:
  assumes one: "filter (\<lambda>x. Key x = k) xs = [e]"
    and e: "f e = v"
    and others: "\<forall>x \<in> set xs. Key x \<noteq> k \<longrightarrow> f x \<noteq> v"
  shows "count_list (map f xs) v = 1"
proof -
  have "count_list (map f xs) v = length (filter (\<lambda>x. f x = v) xs)"
    by (induction xs) auto
  also have "filter (\<lambda>x. f x = v) xs = filter (\<lambda>x. f x = v) (filter (\<lambda>x. Key x = k) xs)"
    using others by (auto intro: filter_cong)
  also have "\<dots> = [e]"
    using one e by simp
  finally show ?thesis by simp
qed

lemma ReadTraceEvents_readLoop:
  "ReadTraceEvents rw traceID out =
     (fst (readLoop (codec (rw_s rw)) (rw_db rw) (txn_Iterate (rw_txn rw) (traceID @ [CHR '':''])) out),
      set_db (fst (snd (readLoop (codec (rw_s rw)) (rw_db rw)
                 (txn_Iterate (rw_txn rw) (traceID @ [CHR '':''])) out)))
        (rw\<lparr>readKeyBuf := traceID @ [CHR '':'']\<rparr>),
      snd (snd (readLoop (codec (rw_s rw)) (rw_db rw)
                 (txn_Iterate (rw_txn rw) (traceID @ [CHR '':''])) out)))"
  by (simp add: ReadTraceEvents_def Let_def rw_db_def split: prod.splits)

lemma rw_SetEntry_entries:
  "set (pendingT (rw_txn (snd (rw_SetEntry rw e)))) \<union> set (committed (rw_db (snd (rw_SetEntry rw e))))
     \<subseteq> insert e (set (pendingT (rw_txn rw)) \<union> set (committed (rw_db rw)))"
  using set_upsert [of e "pendingT (rw_txn rw)"]
  by (auto simp: rw_SetEntry_def txn_SetEntry_def engine_step_outcome split: prod.splits option.splits)

lemma Flush_entries:
  "set (pendingT (rw_txn (snd (Flush rw)))) \<union> set (committed (rw_db (snd (Flush rw))))
     \<subseteq> set (pendingT (rw_txn rw)) \<union> set (committed (rw_db rw))"
  using set_merged [of "pendingT (rw_txn rw)" "committed (rw_db rw)"]
  by (auto simp: Flush_def txn_Commit_def engine_step_outcome NewTransaction_def Let_def
      split: prod.splits option.splits)

lemma writeEntry_entries:
  "set (pendingT (rw_txn (snd (writeEntry rw e)))) \<union> set (committed (rw_db (snd (writeEntry rw e))))
     \<subseteq> insert e (set (pendingT (rw_txn rw)) \<union> set (committed (rw_db rw)))"
proof -
  define rw1 where "rw1 = rw\<lparr>pendingWrites := pendingWrites rw + 1\<rparr>"
  define rw2 where "rw2 = snd (rw_SetEntry rw1 e)"
  define rw3 where "rw3 = (if 200 \<le> sint (pendingWrites rw2) then snd (Flush rw2) else rw2)"
  define S where "S = (\<lambda>x :: 'a ReadWriter. set (pendingT (rw_txn x)) \<union> set (committed (rw_db x)))"
  define B where "B = insert e (S rw)"
  have s2: "S rw2 \<subseteq> B"
    using rw_SetEntry_entries [of rw1 e] by (simp add: S_def B_def rw2_def rw1_def)
  have s3: "S rw3 \<subseteq> B"
    using s2 Flush_entries [of rw2] by (auto simp: S_def rw3_def)
  have s4: "S (snd (Flush rw3)) \<subseteq> B"
    using s3 Flush_entries [of rw3] by (auto simp: S_def)
  have s5: "S (snd (rw_SetEntry (snd (Flush rw3)) e)) \<subseteq> B"
    using s4 rw_SetEntry_entries [of "snd (Flush rw3)" e] by (auto simp: S_def B_def)
  from writeEntry_paths [OF rw2_def [unfolded rw1_def] rw3_def] s3 s4 s5
  have "S (snd (writeEntry rw e)) \<subseteq> B" by auto
  then show ?thesis by (simp add: S_def B_def)
qed

text \<open>
  C2. Let the codec encode the event and decode the encoding back to it. If
  WriteTraceEvent(T, id, event) and then Flush both return nil, the TTL is positive, the
  engine injects no failure into the read, and every other live event entry under the
  prefix of T decodes, to an event different from this one, then ReadTraceEvents(T)
  returns nil and appends a batch that holds the event exactly once.
\<close>

theorem ReadTraceEvents_round_trip:
  assumes enc: "EncodeEvent (codec (rw_s rw)) event = Inr data"
    and dec: "DecodeEvent (codec (rw_s rw)) data = Inr event"
    and w: "WriteTraceEvent rw traceID eid event = (None, rw1)"
    and f: "Flush rw1 = (None, rw2)"
    and nf: "faults (rw_db rw2) = []"
    and t: "0 < ttl (rw_s rw)"
    and others:
      "\<forall>x \<in> set (pendingT (rw_txn rw)) \<union> set (committed (rw_db rw)).
         Key x \<noteq> eventKey traceID eid \<and>
         take (length (traceID @ [CHR '':''])) (Key x) = traceID @ [CHR '':''] \<and>
         \<not> isDeletedOrExpired (clock (rw_db rw)) x \<and>
         UserMeta x = entryMetaTraceEvent \<longrightarrow>
         (\<exists>ev. DecodeEvent (codec (rw_s rw)) (Value x) = Inr ev \<and> ev \<noteq> event)"
  shows "\<exists>rw3 new. ReadTraceEvents rw2 traceID out = (None, rw3, out @ new) \<and>
           count_list new event = 1"
proof -
  define k where "k = eventKey traceID eid"
  define pfx where "pfx = traceID @ [CHR '':'']"
  define e where "e = WithTTL (clock (rw_db rw)) (ttl (rw_s rw))
                        (WithMeta entryMetaTraceEvent (NewEntry k data))"
  define c where "c = codec (rw_s rw)"
  define now where "now = clock (rw_db rw)"
  define LE where "LE = (\<lambda>x. \<not> isDeletedOrExpired now x \<and> UserMeta x = entryMetaTraceEvent)"
  define L where "L = txn_Iterate (rw_txn rw2) pfx"
  have we: "writeEntry rw e = (None, rw1)"
    using w enc by (simp add: WriteTraceEvent_def Let_def e_def k_def)
  have e_fields: "Key e = k" "Value e = data" "UserMeta e = entryMetaTraceEvent"
    by (simp_all add: e_def WithTTL_def WithMeta_def NewEntry_def)
  have e_live: "LE e"
    using decision_entry_live [OF t] by (simp add: LE_def e_fields now_def) (simp add: e_def)
  have k_pfx: "take (length pfx) k = pfx"
    by (simp add: k_def pfx_def eventKey_def)
  have clock1: "clock (rw_db rw1) = now" and codec1: "codec (rw_s rw1) = c"
    using writeEntry_clock [of rw e] we by (simp_all add: now_def c_def)
  have clock2: "clock (rw_db rw2) = now" and codec2: "codec (rw_s rw2) = c"
    using Flush_clock [of rw1] f clock1 codec1 by simp_all
  have view2: "txn_view (rw_txn rw2) = merged (pendingT (rw_txn rw1)) (committed (rw_db rw1))"
    by (rule Flush_visible [OF f])
  have one_view: "filter (\<lambda>x. Key x = k) (txn_view (rw_txn rw2)) = [e]"
    using writeEntry_visible(2) [OF we] by (simp add: view2 e_fields)
  have oneL: "filter (\<lambda>x. Key x = k) L = [e]"
    unfolding L_def by (simp add: filter_key_Iterate [OF k_pfx] one_view)
  have "set (txn_view (rw_txn rw2)) \<subseteq> set (pendingT (rw_txn rw1)) \<union> set (committed (rw_db rw1))"
    by (simp add: view2 set_merged)
  also have "\<dots> \<subseteq> insert e (set (pendingT (rw_txn rw)) \<union> set (committed (rw_db rw)))"
    using writeEntry_entries [of rw e] we by simp
  finally have view_sub:
    "set (txn_view (rw_txn rw2)) \<subseteq> insert e (set (pendingT (rw_txn rw)) \<union> set (committed (rw_db rw)))" .
  have L_mem: "x \<in> set (txn_view (rw_txn rw2)) \<and> take (length pfx) (Key x) = pfx"
    if "x \<in> set L" for x
    using that by (simp add: L_def txn_Iterate_def)
  have other: "\<exists>ev. DecodeEvent c (Value x) = Inr ev \<and> ev \<noteq> event"
    if xL: "x \<in> set L" and xk: "Key x \<noteq> k" and xle: "LE x" for x
  proof -
    from xk e_fields have "x \<noteq> e" by auto
    with L_mem [OF xL] view_sub
    have "x \<in> set (pendingT (rw_txn rw)) \<union> set (committed (rw_db rw))" by auto
    with others xk xle L_mem [OF xL] show ?thesis
      by (simp add: k_def pfx_def LE_def now_def c_def)
  qed
  have same: "x = e" if "x \<in> set L" and "Key x = k" for x
  proof -
    from that have "x \<in> set (filter (\<lambda>x. Key x = k) L)" by simp
    then show ?thesis by (simp add: oneL)
  qed
  have decodable: "\<forall>x \<in> set L. \<not> isDeletedOrExpired (clock (rw_db rw2)) x \<and>
      UserMeta x = entryMetaTraceEvent \<longrightarrow> (\<exists>ev. DecodeEvent c (Value x) = Inr ev)"
  proof (intro ballI impI)
    fix x assume xL: "x \<in> set L"
      and "\<not> isDeletedOrExpired (clock (rw_db rw2)) x \<and> UserMeta x = entryMetaTraceEvent"
    then have xle: "LE x" by (simp add: LE_def clock2)
    show "\<exists>ev. DecodeEvent c (Value x) = Inr ev"
    proof (cases "Key x = k")
      case True
      with same [OF xL] dec show ?thesis by (simp add: e_fields c_def)
    next
      case False
      from other [OF xL False xle] show ?thesis by blast
    qed
  qed
  define new where "new = map (\<lambda>x. projr (DecodeEvent c (Value x))) (filter LE L)"
  from readLoop_no_fault [OF nf decodable, of out]
  have loop: "fst (readLoop c (rw_db rw2) L out) = None"
    "snd (snd (readLoop c (rw_db rw2) L out)) = out @ new"
    by (simp_all add: new_def LE_def clock2)
  have read: "\<exists>rw3. ReadTraceEvents rw2 traceID out = (None, rw3, out @ new)"
    using loop by (simp add: ReadTraceEvents_readLoop codec2 L_def pfx_def)
  have one_live: "filter (\<lambda>x. Key x = k) (filter LE L) = [e]"
  proof -
    have "filter (\<lambda>x. Key x = k) (filter LE L) = filter LE (filter (\<lambda>x. Key x = k) L)"
      by (auto intro: filter_cong)
    then show ?thesis using e_live by (simp add: oneL)
  qed
  have "count_list new event = 1"
    unfolding new_def
  proof (rule count_single_key [OF one_live])
    show "projr (DecodeEvent c (Value e)) = event"
      using dec by (simp add: e_fields c_def)
    show "\<forall>x \<in> set (filter LE L). Key x \<noteq> k \<longrightarrow> projr (DecodeEvent c (Value x)) \<noteq> event"
    proof (intro ballI impI)
      fix x assume "x \<in> set (filter LE L)" and xk: "Key x \<noteq> k"
      then have "x \<in> set L" "LE x" by simp_all
      from other [OF this(1) xk this(2)]
      show "projr (DecodeEvent c (Value x)) \<noteq> event" by auto
    qed
  qed
  with read show ?thesis by blast
qed

theorem ReadTraceEvents_round_trip_witness:
  "fst (WriteTraceEvent (sample_rw 0 []) ''t1'' ''s1'' ''payload'') = None
   \<and> fst (Flush (snd (WriteTraceEvent (sample_rw 0 []) ''t1'' ''s1'' ''payload''))) = None
   \<and> fst (ReadTraceEvents
            (snd (Flush (snd (WriteTraceEvent (sample_rw 0 []) ''t1'' ''s1'' ''payload''))))
            ''t1'' []) = None
   \<and> count_list
        (snd (snd (ReadTraceEvents
            (snd (Flush (snd (WriteTraceEvent (sample_rw 0 []) ''t1'' ''s1'' ''payload''))))
            ''t1'' [])))
        ''payload'' = 1"
proof -
  define rw1 where "rw1 = snd (WriteTraceEvent (sample_rw 0 []) ''t1'' ''s1'' ''payload'')"
  define rw2 where "rw2 = snd (Flush rw1)"
  have enc: "EncodeEvent (codec (rw_s (sample_rw 0 []))) ''payload'' = Inr ''payload''"
    and dec: "DecodeEvent (codec (rw_s (sample_rw 0 []))) ''payload'' = Inr ''payload''"
    by (simp_all add: sample_defs)
  have w: "WriteTraceEvent (sample_rw 0 []) ''t1'' ''s1'' ''payload'' = (None, rw1)"
    unfolding rw1_def
    by (simp add: WriteTraceEvent_def writeEntry_def step_defs sample_defs Let_def)
  have rw1: "faults (rw_db rw1) = []" "limit (rw_s rw1) = 0"
    unfolding rw1_def
    by (simp_all add: WriteTraceEvent_def writeEntry_def step_defs sample_defs Let_def)
  have f: "Flush rw1 = (None, rw2)"
    unfolding rw2_def using rw1
    by (simp add: step_defs limitReached_iff rw_db_def Let_def)
  have nf: "faults (rw_db rw2) = []"
    unfolding rw2_def using rw1
    by (simp add: step_defs limitReached_iff rw_db_def set_db_def Let_def)
  have t: "0 < ttl (rw_s (sample_rw 0 []))"
    by (simp add: sample_defs)
  have others: "\<forall>x \<in> set (pendingT (rw_txn (sample_rw 0 []))) \<union> set (committed (rw_db (sample_rw 0 []))).
         Key x \<noteq> eventKey ''t1'' ''s1'' \<and>
         take (length (''t1'' @ [CHR '':''])) (Key x) = ''t1'' @ [CHR '':''] \<and>
         \<not> isDeletedOrExpired (clock (rw_db (sample_rw 0 []))) x \<and>
         UserMeta x = entryMetaTraceEvent \<longrightarrow>
         (\<exists>ev. DecodeEvent (codec (rw_s (sample_rw 0 []))) (Value x) = Inr ev \<and> ev \<noteq> ''payload'')"
    by (simp add: sample_defs)
  from ReadTraceEvents_round_trip [OF enc dec w f nf t others, of "[]"]
  obtain rw3 new where "ReadTraceEvents rw2 ''t1'' [] = (None, rw3, new)"
    "count_list new ''payload'' = 1"
    by auto
  with w f show ?thesis
    by (simp add: rw1_def [symmetric] rw2_def [symmetric])
qed

subsection \<open>Keys of different traces\<close>

lemma eventKey_not_under_other_prefix:
  assumes ne: "T1 \<noteq> T2"
    and p12: "take (length T1 + 1) T2 \<noteq> T1 @ [CHR '':'']"
    and p21: "take (length T2 + 1) T1 \<noteq> T2 @ [CHR '':'']"
  shows "take (length (T2 @ [CHR '':''])) (eventKey T1 eid) \<noteq> T2 @ [CHR '':'']"
proof
  assume h: "take (length (T2 @ [CHR '':''])) (eventKey T1 eid) = T2 @ [CHR '':'']"
  then have h': "take (length T2 + 1) (T1 @ CHR '':'' # eid) = T2 @ [CHR '':'']"
    by (simp add: eventKey_def)
  consider (lt) "length T2 < length T1" | (eq) "length T2 = length T1" | (gt) "length T1 < length T2"
    by linarith
  then show False
  proof cases
    case lt
    then have "take (length T2 + 1) (T1 @ CHR '':'' # eid) = take (length T2 + 1) T1"
      by simp
    with h' p21 show False by simp
  next
    case eq
    with h' have "T1 @ [CHR '':''] = T2 @ [CHR '':'']" by simp
    with ne show False by simp
  next
    case gt
    have "take (length T1 + 1) (take (length T2 + 1) (T1 @ CHR '':'' # eid)) = T1 @ [CHR '':'']"
      using gt by (simp add: min_def)
    then have "take (length T1 + 1) (T2 @ [CHR '':'']) = T1 @ [CHR '':'']"
      by (simp only: h')
    moreover have "take (length T1 + 1) (T2 @ [CHR '':'']) = take (length T1 + 1) T2"
      using gt by simp
    ultimately show False using p12 by simp
  qed
qed

lemma readLoop_provenance:
  "\<exists>xs. snd (snd (readLoop c d items out)) = out @ map (\<lambda>x. projr (DecodeEvent c (Value x))) xs \<and>
        set xs \<subseteq> set items \<and>
        (\<forall>x \<in> set xs. \<exists>ev. DecodeEvent c (Value x) = Inr ev)"
proof (induction items arbitrary: d out)
  case Nil
  show ?case by simp
next
  case (Cons item items)
  show ?case
  proof (cases "\<not> isDeletedOrExpired (clock d) item \<and> UserMeta item = entryMetaTraceEvent")
    case False
    then have "readLoop c d (item # items) out = readLoop c d items out" by auto
    with Cons.IH [of d out] show ?thesis by auto
  next
    case True
    obtain r d' where v: "item_Value d item = (r, d')" by (cases "item_Value d item")
    show ?thesis
    proof (cases r)
      case (Inl err)
      with True v have "snd (snd (readLoop c d (item # items) out)) = out" by simp
      then show ?thesis by (intro exI [of _ "[]"]) simp
    next
      case (Inr data)
      then have data: "data = Value item"
        using v by (auto simp: item_Value_def split: prod.splits option.splits)
      show ?thesis
      proof (cases "DecodeEvent c data")
        case (Inl err)
        with True v Inr have "snd (snd (readLoop c d (item # items) out)) = out" by simp
        then show ?thesis by (intro exI [of _ "[]"]) simp
      next
        case dec: (Inr event)
        with True v Inr have step:
          "readLoop c d (item # items) out = readLoop c d' items (out @ [event])" by simp
        from Cons.IH [of d' "out @ [event]"] obtain xs where
          xs: "snd (snd (readLoop c d' items (out @ [event]))) =
                 (out @ [event]) @ map (\<lambda>x. projr (DecodeEvent c (Value x))) xs"
              "set xs \<subseteq> set items" "\<forall>x \<in> set xs. \<exists>ev. DecodeEvent c (Value x) = Inr ev"
          by blast
        show ?thesis
          using xs dec data unfolding step
          by (intro exI [of _ "item # xs"]) auto
      qed
    qed
  qed
qed

lemma readLoop_same:
  assumes "faults d = []" and "faults d' = []" and "clock d = clock d'"
  shows "fst (readLoop c d items out) = fst (readLoop c d' items out) \<and>
         snd (snd (readLoop c d items out)) = snd (snd (readLoop c d' items out))"
  using assms
proof (induction items arbitrary: d d' out)
  case Nil
  show ?case by simp
next
  case (Cons item items)
  let ?e = "d\<lparr>faults := [], calls := calls d @ [CallValue]\<rparr>"
  let ?e' = "d'\<lparr>faults := [], calls := calls d' @ [CallValue]\<rparr>"
  have ih: "fst (readLoop c ?e items o') = fst (readLoop c ?e' items o') \<and>
            snd (snd (readLoop c ?e items o')) = snd (snd (readLoop c ?e' items o'))" for o'
    using Cons.prems by (intro Cons.IH) simp_all
  from Cons.IH [OF Cons.prems, of out] ih Cons.prems(3) show ?case
    by (simp add: item_Value_no_fault [OF Cons.prems(1)] item_Value_no_fault [OF Cons.prems(2)]
        split: sum.splits)
qed

text \<open>With no engine failure injected, a write ends in one of two states.\<close>

lemma writeEntry_no_fault:
  assumes nf: "faults (rw_db rw) = []"
  shows "faults (rw_db (snd (writeEntry rw e))) = [] \<and>
         ((pendingT (rw_txn (snd (writeEntry rw e))) = upsert e (pendingT (rw_txn rw)) \<and>
           snapshot (rw_txn (snd (writeEntry rw e))) = snapshot (rw_txn rw)) \<or>
          (pendingT (rw_txn (snd (writeEntry rw e))) = [] \<and>
           snapshot (rw_txn (snd (writeEntry rw e))) =
             merged (upsert e (pendingT (rw_txn rw))) (committed (rw_db rw))))"
proof (cases "limitReached (rw_s rw)")
  case True
  with nf show ?thesis
    by (simp add: writeEntry_def step_defs limitReached_iff rw_db_def set_db_def Let_def)
next
  case False
  with nf show ?thesis
    by (simp add: writeEntry_def step_defs limitReached_iff rw_db_def set_db_def Let_def)
qed

text \<open>
  C3, as amended. Let T1 and T2 be distinct trace IDs such that neither of them, followed
  by the separator, is a byte-prefix of the other (T1 may still be a byte-prefix of T2).
  Then every event ReadTraceEvents(T2) appends was decoded from an entry the transaction
  sees whose key is not the event key of T1 for any event ID; and on a writer whose
  transaction is current, with no engine failure injected, WriteTraceEvent for T1 leaves
  the error and the batch ReadTraceEvents(T2) returns unchanged.
\<close>

theorem trace_isolation:
  assumes ne: "T1 \<noteq> T2"
    and p12: "take (length T1 + 1) T2 \<noteq> T1 @ [CHR '':'']"
    and p21: "take (length T2 + 1) T1 \<noteq> T2 @ [CHR '':'']"
  shows "(\<exists>xs. snd (snd (ReadTraceEvents rw T2 out)) =
                 out @ map (\<lambda>x. projr (DecodeEvent (codec (rw_s rw)) (Value x))) xs \<and>
              (\<forall>x \<in> set xs. x \<in> set (txn_view (rw_txn rw)) \<and>
                 (\<exists>ev. DecodeEvent (codec (rw_s rw)) (Value x) = Inr ev) \<and>
                 (\<forall>eid'. Key x \<noteq> eventKey T1 eid')))
       \<and> (faults (rw_db rw) = [] \<and> snapshot (rw_txn rw) = committed (rw_db rw) \<longrightarrow>
            fst (ReadTraceEvents (snd (WriteTraceEvent rw T1 eid event)) T2 out)
              = fst (ReadTraceEvents rw T2 out) \<and>
            snd (snd (ReadTraceEvents (snd (WriteTraceEvent rw T1 eid event)) T2 out))
              = snd (snd (ReadTraceEvents rw T2 out)))"
proof (intro conjI impI)
  define pfx where "pfx = T2 @ [CHR '':'']"
  define c where "c = codec (rw_s rw)"
  from readLoop_provenance [of c "rw_db rw" "txn_Iterate (rw_txn rw) pfx" out]
  obtain xs where
    xs: "snd (snd (readLoop c (rw_db rw) (txn_Iterate (rw_txn rw) pfx) out)) =
           out @ map (\<lambda>x. projr (DecodeEvent c (Value x))) xs"
        "set xs \<subseteq> set (txn_Iterate (rw_txn rw) pfx)"
        "\<forall>x \<in> set xs. \<exists>ev. DecodeEvent c (Value x) = Inr ev"
    by blast
  have "x \<in> set (txn_view (rw_txn rw)) \<and> (\<forall>eid'. Key x \<noteq> eventKey T1 eid')"
    if "x \<in> set xs" for x
  proof -
    from that xs(2) have m: "x \<in> set (txn_view (rw_txn rw))" "take (length pfx) (Key x) = pfx"
      by (auto simp: txn_Iterate_def)
    from m(2) eventKey_not_under_other_prefix [OF ne p12 p21]
    have "Key x \<noteq> eventKey T1 eid'" for eid'
      by (auto simp: pfx_def)
    with m(1) show ?thesis by blast
  qed
  with xs(1,3)
  show "\<exists>xs. snd (snd (ReadTraceEvents rw T2 out)) =
                 out @ map (\<lambda>x. projr (DecodeEvent (codec (rw_s rw)) (Value x))) xs \<and>
              (\<forall>x \<in> set xs. x \<in> set (txn_view (rw_txn rw)) \<and>
                 (\<exists>ev. DecodeEvent (codec (rw_s rw)) (Value x) = Inr ev) \<and>
                 (\<forall>eid'. Key x \<noteq> eventKey T1 eid'))"
    by (intro exI [of _ xs]) (simp add: ReadTraceEvents_readLoop pfx_def c_def)
next
  assume h: "faults (rw_db rw) = [] \<and> snapshot (rw_txn rw) = committed (rw_db rw)"
  define rw1 where "rw1 = snd (WriteTraceEvent rw T1 eid event)"
  define q where "q = (\<lambda>k. take (length (T2 @ [CHR '':''])) k = T2 @ [CHR '':''])"
  have same: "faults (rw_db rw1) = [] \<and> clock (rw_db rw1) = clock (rw_db rw) \<and>
              codec (rw_s rw1) = codec (rw_s rw) \<and>
              filter (\<lambda>x. q (Key x)) (txn_view (rw_txn rw1)) =
              filter (\<lambda>x. q (Key x)) (txn_view (rw_txn rw))"
  proof (cases "EncodeEvent (codec (rw_s rw)) event")
    case (Inl err)
    then have "rw1 = rw" by (simp add: rw1_def WriteTraceEvent_def)
    with h show ?thesis by simp
  next
    case (Inr data)
    define e where "e = WithTTL (clock (rw_db rw)) (ttl (rw_s rw))
                        (WithMeta entryMetaTraceEvent (NewEntry (eventKey T1 eid) data))"
    have rw1: "rw1 = snd (writeEntry rw e)"
      using Inr by (simp add: rw1_def WriteTraceEvent_def Let_def e_def)
    have "Key e = eventKey T1 eid"
      by (simp add: e_def WithTTL_def WithMeta_def NewEntry_def)
    with eventKey_not_under_other_prefix [OF ne p12 p21, of eid] have nq: "\<not> q (Key e)"
      by (simp add: q_def)
    from writeEntry_no_fault [of rw e] h
    have "filter (\<lambda>x. q (Key x)) (txn_view (rw_txn rw1)) =
          filter (\<lambda>x. q (Key x)) (txn_view (rw_txn rw))"
      using nq by (auto simp: rw1 txn_view_def filter_keys_merged filter_keys_upsert)
    moreover have "faults (rw_db rw1) = []"
      using writeEntry_no_fault [of rw e] h by (simp add: rw1)
    ultimately show ?thesis
      by (simp add: rw1 writeEntry_clock)
  qed
  then have it: "txn_Iterate (rw_txn rw1) (T2 @ [CHR '':'']) = txn_Iterate (rw_txn rw) (T2 @ [CHR '':''])"
    by (simp add: txn_Iterate_def q_def)
  from same h have "faults (rw_db rw1) = []" "faults (rw_db rw) = []"
    "clock (rw_db rw1) = clock (rw_db rw)"
    by simp_all
  from readLoop_same [OF this, of "codec (rw_s rw)" "txn_Iterate (rw_txn rw) (T2 @ [CHR '':''])" out]
  show "fst (ReadTraceEvents (snd (WriteTraceEvent rw T1 eid event)) T2 out)
              = fst (ReadTraceEvents rw T2 out)"
    and "snd (snd (ReadTraceEvents (snd (WriteTraceEvent rw T1 eid event)) T2 out))
              = snd (snd (ReadTraceEvents rw T2 out))"
    using same it by (simp_all add: ReadTraceEvents_readLoop rw1_def [symmetric])
qed

theorem trace_isolation_witness:
  "snd (snd (ReadTraceEvents
       (snd (WriteTraceEvent (sample_rw 0 []) ''ab'' ''s1'' ''payload'')) ''abc'' [])) = []
   \<and> snd (snd (ReadTraceEvents
       (snd (WriteTraceEvent (sample_rw 0 []) ''ab'' ''s1'' ''payload'')) ''ab'' [])) = [''payload'']"
proof -
  have h: "''ab'' \<noteq> ''abc''" "take (length ''ab'' + 1) ''abc'' \<noteq> ''ab'' @ [CHR '':'']"
    "take (length ''abc'' + 1) ''ab'' \<noteq> ''abc'' @ [CHR '':'']"
    by simp_all
  have s: "faults (rw_db (sample_rw 0 [])) = []"
    "snapshot (rw_txn (sample_rw 0 [])) = committed (rw_db (sample_rw 0 []))"
    by (simp_all add: sample_defs)
  have before: "snd (snd (ReadTraceEvents (sample_rw 0 []) ''abc'' [])) = []"
    by (simp add: eval_defs)
  have own: "snd (snd (ReadTraceEvents
       (snd (WriteTraceEvent (sample_rw 0 []) ''ab'' ''s1'' ''payload'')) ''ab'' [])) = [''payload'']"
    by (simp add: eval_defs)
  from trace_isolation [OF h, of "sample_rw 0 []" "[]" "''s1''" "''payload''"] s before own
  show ?thesis by simp
qed

text \<open>
  For arbitrary byte strings the isolation fails. The trace IDs \<open>a\<close> and \<open>a:b\<close> are
  distinct, and \<open>a\<close> is a byte-prefix of \<open>a:b\<close>. On a fresh writer ReadTraceEvents
  returns nothing for either; after the event \<open>b:c\<close> of trace \<open>a\<close> is written it is
  returned for \<open>a:b\<close>, and after the event \<open>c\<close> of trace \<open>a:b\<close> is written it is
  returned for \<open>a\<close>: both events have the key \<open>a:b:c\<close>.
\<close>

theorem trace_isolation_counterexample:
  "''a'' \<noteq> ''a:b''
   \<and> snd (snd (ReadTraceEvents (sample_rw 0 []) ''a:b'' [])) = []
   \<and> fst (WriteTraceEvent (sample_rw 0 []) ''a'' ''b:c'' ''payload'') = None
   \<and> snd (snd (ReadTraceEvents
       (snd (WriteTraceEvent (sample_rw 0 []) ''a'' ''b:c'' ''payload'')) ''a:b'' [])) = [''payload'']
   \<and> ''a:b'' \<noteq> ''a''
   \<and> snd (snd (ReadTraceEvents (sample_rw 0 []) ''a'' [])) = []
   \<and> fst (WriteTraceEvent (sample_rw 0 []) ''a:b'' ''c'' ''payload'') = None
   \<and> snd (snd (ReadTraceEvents
       (snd (WriteTraceEvent (sample_rw 0 []) ''a:b'' ''c'' ''payload'')) ''a'' [])) = [''payload'']"
  by (simp add: eval_defs)

subsection \<open>The effective limit\<close>

lemma round_nearest_even_cases:
  "round_nearest_even m k = m div 2 ^ k \<or>
   (round_nearest_even m k = m div 2 ^ k + 1 \<and> 2 ^ k \<le> 2 * (m mod 2 ^ k))"
  by (auto simp: round_nearest_even_def Let_def)

lemma scale_exact:
  fixes L K J P q r m :: int
  assumes L: "2 \<le> L"
    and K: "0 < K" "0 < J" "J * K = 2 ^ 53"
    and room: "(9 * L mod 10) * 2 ^ 53 + 2 * L + 5 * K < 10 * 2 ^ 53"
    and P: "P = L * 8106479329266893"
    and qr: "P = q * K + r" "0 \<le> r" "r < K"
    and m: "m = q \<or> (m = q + 1 \<and> K \<le> 2 * r)"
  shows "m div J = 9 * L div 10"
proof -
  define n0 where "n0 = 9 * L div 10"
  define s where "s = 9 * L mod 10"
  have n0: "9 * L = 10 * n0 + s" "0 \<le> s" "0 \<le> n0"
    using L by (simp_all add: n0_def s_def)
  have P10: "10 * P = 9 * L * 2 ^ 53 + 2 * L"
    by (simp add: P)
  have up: "10 * P = 10 * n0 * 2 ^ 53 + s * 2 ^ 53 + 2 * L"
    using P10 n0(1) by (simp add: algebra_simps)
  have room': "s * 2 ^ 53 + 2 * L + 5 * K < 10 * 2 ^ 53"
    using room by (simp add: s_def)
  have lo: "n0 * J \<le> q"
  proof (rule ccontr)
    assume "\<not> n0 * J \<le> q"
    then have "q + 1 \<le> n0 * J" by simp
    then have "(q + 1) * K \<le> n0 * J * K"
      using K(1) by (intro mult_right_mono) simp_all
    also have "\<dots> = n0 * 2 ^ 53" using K(3) by (simp add: mult.assoc)
    finally have "(q + 1) * K \<le> n0 * 2 ^ 53" .
    moreover have "P < (q + 1) * K" using qr by (simp add: algebra_simps)
    ultimately have "10 * P < 10 * n0 * 2 ^ 53" by simp
    with up n0(2) L show False by simp
  qed
  have hi: "m < (n0 + 1) * J"
  proof (rule ccontr)
    assume "\<not> m < (n0 + 1) * J"
    then have ge: "(n0 + 1) * J \<le> m" by simp
    then have "(n0 + 1) * J * K \<le> m * K"
      using K(1) by (intro mult_right_mono) simp_all
    then have mK: "(n0 + 1) * 2 ^ 53 \<le> m * K" using K(3) by (simp add: mult.assoc)
    from m show False
    proof
      assume "m = q"
      with mK have "(n0 + 1) * 2 ^ 53 \<le> P" using qr by simp
      with up room' K(1) show False by (simp add: algebra_simps)
    next
      assume "m = q + 1 \<and> K \<le> 2 * r"
      then have "m * K = q * K + K" "K \<le> 2 * r" by (simp_all add: algebra_simps)
      with mK qr have "2 * (n0 + 1) * 2 ^ 53 \<le> 2 * P + K" by simp
      with up room' show False by (simp add: algebra_simps)
    qed
  qed
  have "n0 * J \<le> m" using lo m by auto
  with hi K(2) have "m div J = n0"
    by (intro int_div_pos_eq [where r = "m - n0 * J"]) (simp_all add: algebra_simps)
  then show ?thesis by (simp add: n0_def)
qed

lemma sint_word_of_int_small:
  assumes "0 \<le> v" "v < 2 ^ 63"
  shows "sint (word_of_int v :: int64) = v"
  using assms by (simp add: sint_sbintrunc' signed_take_bit_int_eq_self)

lemma New_scales:
  assumes l1: "1 < sint l" and l2: "sint l < 1250999896491811"
  shows "sint (limit (New d c t l)) = 9 * sint l div 10"
proof -
  define L where "L = sint l"
  define P where "P = L * 8106479329266893"
  define n where "n = nat (bitlen P)"
  define k where "k = n - 53"
  define m where "m = round_nearest_even P k"
  have L: "2 \<le> L" "L < 1250999896491811" using l1 l2 by (simp_all add: L_def)
  have Lpos: "\<bar>L\<bar> = L" using L by simp
  have "bitlen L \<le> 53"
    using L by (simp add: bitlen_le_iff_power)
  then have "nat (bitlen L) \<le> 53" by simp
  then have conv: "float64_of_int64 l = (L, 0)"
    by (simp add: float64_of_int64_def round53_def Let_def L_def [symmetric] Lpos)
  have Pbounds: "2 ^ 53 \<le> P" "P < 2 ^ 104"
  proof -
    show "2 ^ 53 \<le> P" using L(1) by (simp add: P_def)
    have "P < 1250999896491811 * 8106479329266893" using L(2) by (simp add: P_def)
    also have "\<dots> < (2 :: int) ^ 104" by simp
    finally show "P < 2 ^ 104" .
  qed
  then have Ppos: "0 < P" "\<bar>P\<bar> = P" "sgn P = 1" by simp_all
  have "54 \<le> bitlen P"
    using Pbounds(1) by (simp add: bitlen_ge_iff_power)
  moreover have "bitlen P \<le> 104"
    using Pbounds(2) by (simp add: bitlen_le_iff_power)
  ultimately have n: "54 \<le> n" "n \<le> 104" by (simp_all add: n_def)
  then have k: "1 \<le> k" "k \<le> 51" "n = k + 53" by (simp_all add: k_def)
  have mul: "float64_mul (L, 0) storageLimitThreshold = (m, int k - 53)"
    using n Ppos
    by (simp add: float64_mul_def storageLimitThreshold_def round53_def Let_def
        P_def [symmetric] n_def [symmetric] k_def [symmetric] m_def)
  define K :: int where "K = 2 ^ k"
  define J :: int where "J = 2 ^ (53 - k)"
  have KJ: "0 < K" "0 < J" "J * K = 2 ^ 53"
    using k by (simp_all add: K_def J_def flip: power_add)
  have s9: "0 \<le> 9 * L mod 10" "9 * L mod 10 \<le> 9" by simp_all
  have room: "(9 * L mod 10) * 2 ^ 53 + 2 * L + 5 * K < 10 * 2 ^ 53"
  proof (cases "P < 2 ^ 103")
    case True
    then have "bitlen P \<le> 103" by (simp add: bitlen_le_iff_power)
    then have "k \<le> 50" by (simp add: k_def n_def)
    then have "K \<le> 2 ^ 50"
      unfolding K_def by (intro power_increasing) simp_all
    with s9 L show ?thesis by simp
  next
    case False
    have "1250999896491805 \<le> L"
    proof (rule ccontr)
      assume "\<not> 1250999896491805 \<le> L"
      then have "L \<le> 1250999896491804" by simp
      then have "P \<le> 1250999896491804 * 8106479329266893" by (simp add: P_def)
      also have "\<dots> < (2 :: int) ^ 103" by simp
      finally show False using False by simp
    qed
    with L(2) have "L = 1250999896491805 \<or> L = 1250999896491806 \<or> L = 1250999896491807 \<or>
        L = 1250999896491808 \<or> L = 1250999896491809 \<or> L = 1250999896491810"
      by arith
    then have s5: "9 * L mod 10 \<le> 5" by auto
    have "K \<le> 2 ^ 51"
      unfolding K_def using k(2) by (intro power_increasing) simp_all
    with s5 s9 L show ?thesis by simp
  qed
  have qr: "P = (P div K) * K + P mod K" "0 \<le> P mod K" "P mod K < K"
    using KJ(1) by simp_all
  have mc: "m = P div K \<or> (m = P div K + 1 \<and> K \<le> 2 * (P mod K))"
    using round_nearest_even_cases [of P k] by (simp add: m_def K_def)
  have res: "m div J = 9 * L div 10"
    by (rule scale_exact [OF L(1) KJ room P_def qr mc])
  have "0 \<le> P div K" using Ppos KJ(1) by (simp add: pos_imp_zdiv_nonneg_iff)
  with mc have mpos: "0 \<le> m" by auto
  then have sm: "sgn m * (\<bar>m\<bar> div J) = m div J"
    by (cases "m = 0") simp_all
  have e: "\<not> 0 \<le> int k - 53" "nat (- (int k - 53)) = 53 - k"
    using k by simp_all
  have "limit (New d c t l) = int64_of_float64 (m, int k - 53)"
    using l1 by (simp add: New_def conv mul)
  also have "\<dots> = word_of_int (sgn m * (\<bar>m\<bar> div J))"
    using e by (simp add: int64_of_float64_def Let_def J_def del: of_int_mult)
  also have "\<dots> = word_of_int (m div J)"
    by (simp only: sm)
  finally have "limit (New d c t l) = word_of_int (9 * L div 10)"
    by (simp add: res)
  moreover have "0 \<le> 9 * L div 10" "9 * L div 10 < 2 ^ 63"
    using L by simp_all
  ultimately show ?thesis
    by (simp add: sint_word_of_int_small L_def)
qed

text \<open>
  C6, as amended. For a limit greater than 1 and below 1250999896491811 bytes, New stores
  nine tenths of the limit rounded down; a limit of 1 or less is stored as it is, so a limit
  of 0 means that limitReached is false whatever the engine reports, and a limit of exactly 1
  bypasses the margin.
\<close>

theorem New_effective_limit:
  "(1 < sint l \<and> sint l < 1250999896491811 \<longrightarrow>
      sint (limit (New d c t l)) = 9 * sint l div 10)
   \<and> (sint l \<le> 1 \<longrightarrow> limit (New d c t l) = l)
   \<and> limit (New d c t 1) = 1
   \<and> limit (New d c t 0) = 0
   \<and> \<not> limitReached (New d c t 0)"
  using New_scales [of l d c t]
  by (simp add: New_def limitReached_def)

theorem New_effective_limit_witness:
  "sint (limit (New sample_db sample_codec 30 3000000000)) = 2700000000
   \<and> sint (limit (New sample_db sample_codec 30 1250999896491810)) = 1125899906842629
   \<and> sint (limit (New sample_db sample_codec 30 2)) = 1
   \<and> limit (New sample_db sample_codec 30 1) = 1
   \<and> \<not> limitReached (New (sample_db\<lparr>lsm := 5000, vlog := 7000\<rparr>) sample_codec 30 0)"
  using New_effective_limit [of 3000000000 sample_db sample_codec 30]
    New_effective_limit [of 1250999896491810 sample_db sample_codec 30]
    New_effective_limit [of 2 sample_db sample_codec 30]
    New_effective_limit [of 1 "sample_db\<lparr>lsm := 5000, vlog := 7000\<rparr>" sample_codec 30]
  by simp

text \<open>
  The bound is the least limit at which the binary64 product rounds up across an integer:
  for a limit of 1250999896491811 bytes nine tenths are 1125899906842629.9, rounded down
  1125899906842629, and New stores 1125899906842630, more than nine tenths of the limit.
\<close>

theorem New_effective_limit_counterexample:
  "sint (limit (New sample_db sample_codec 30 1250999896491811)) = 1125899906842630
   \<and> 9 * 1250999896491811 div 10 = (1125899906842629 :: int)
   \<and> 9 * (1250999896491811 :: int) < 10 * 1125899906842630"
proof -
  have "bitlen 1250999896491811 \<le> 53"
    by (simp add: bitlen_le_iff_power)
  then have a: "nat (bitlen 1250999896491811) \<le> 53"
    by simp
  have "bitlen (1250999896491811 * 8106479329266893) = 104"
    by (intro antisym) (simp_all add: bitlen_le_iff_power bitlen_ge_iff_power)
  then have b: "nat (bitlen (1250999896491811 * 8106479329266893)) = 104"
    by simp
  show ?thesis
    using a b
    by (simp add: New_def float64_of_int64_def float64_mul_def round53_def
        storageLimitThreshold_def round_nearest_even_def int64_of_float64_def Let_def)
qed

end
